theory Spec2Isabelle
  imports Main
begin

section \<open>Data model (types.ts)\<close>

text \<open>
  The string unions of types.ts become datatypes. Constructors carry a prefix because
  the three unions share the words completed and failed.
\<close>

datatype TaskStatus = TaskPending | TaskInProgress | TaskCompleted | TaskFailed | TaskCancelled

datatype RunStatus =
  RunIdle | RunPlanning | RunExecuting | RunJudging | RunCompleted | RunFailed | RunStopped | RunPaused

datatype WorkerStatus = WorkerIdle | WorkerRunning | WorkerCompleted | WorkerFailed | WorkerMerging

datatype LogLevel = LvInfo | LvWarn | LvError | LvDebug

datatype ActivityType = ToolCall | FileEdit | FileCreate | Bash | TextOut | ErrorOut | Thinking

datatype EventType =
  EvRunCreated | EvRunUpdated | EvRunCompleted | EvRunFailed | EvTaskUpdated
  | EvWorkerCreated | EvWorkerUpdated | EvWorkerLog | EvJudgementCreated | EvLog

text \<open>
  Timestamps are the millisecond counts of Date.now(), natural numbers. Optional fields
  (\<open>result?\<close>, \<open>startedAt?\<close>, ...) are options, \<open>None\<close> standing for undefined.
  The fields \<open>assignedWorker\<close>, \<open>branch\<close>, \<open>port\<close>, \<open>pid\<close> and \<open>sessionId\<close> are
  never read or written by the orchestrator and are left out.
\<close>

record Task =
  t_id :: string
  t_title :: string
  t_description :: string
  t_status :: TaskStatus
  t_priority :: int
  t_dependencies :: "string list"
  t_result :: "string option"
  t_error :: "string option"
  t_spawnedBy :: "string option"
  t_createdAt :: nat
  t_startedAt :: "nat option"
  t_completedAt :: "nat option"

record LogEntry =
  l_timestamp :: nat
  l_level :: LogLevel
  l_source :: string
  l_message :: string

record WorkerActivity =
  a_type :: ActivityType
  a_summary :: string
  a_timestamp :: nat

record Worker =
  w_id :: string
  w_status :: WorkerStatus
  w_taskId :: "string option"
  w_logs :: "LogEntry list"
  w_activity :: "WorkerActivity list"
  w_startedAt :: nat
  w_completedAt :: "nat option"

record Judgement =
  j_id :: string
  j_taskId :: string
  j_assessment :: string
  j_newTaskIds :: "string list"
  j_goalComplete :: bool
  j_timestamp :: nat

text \<open>
  \<open>maxWorkers\<close> is a JavaScript number. It is modelled as an integer; \<open>None\<close> is the
  value undefined, which only a record cast from a saved file without the field can hold.
\<close>

record Run =
  r_id :: string
  r_goal :: string
  r_targetDir :: string
  r_status :: RunStatus
  r_analysis :: string
  r_tasks :: "Task list"
  r_judgements :: "Judgement list"
  r_workers :: "Worker list"
  r_maxWorkers :: "int option"
  r_createdAt :: nat
  r_completedAt :: "nat option"
  r_error :: "string option"

text \<open>
  An emitted event: its type and the identifier (or, for a log event, the message) of its
  payload. The event bus appends to its log and keeps the last 1000 entries.
\<close>

type_synonym Event = "EventType \<times> string"

definition slice_last :: "nat \<Rightarrow> 'a list \<Rightarrow> 'a list" where
  \<comment> \<open>\<open>xs.slice(-n)\<close> for \<open>n > 0\<close>: the last \<open>n\<close> elements, the whole array when shorter.\<close>
  "slice_last n xs = drop (length xs - n) xs"

definition emit :: "EventType \<Rightarrow> string \<Rightarrow> Event list \<Rightarrow> Event list" where
  "emit ty payload eventLog =
     (let eventLog' = eventLog @ [(ty, payload)]
      in if length eventLog' > 1000 then slice_last 1000 eventLog' else eventLog')"

section \<open>Worker records (worker.ts)\<close>

text \<open>
  \<open>addLog\<close> and \<open>addActivity\<close> mutate the worker record and emit on the event bus; the
  model passes the pair of the worker and the bus's event log and returns it updated.
  \<open>now\<close> is the value of Date.now() at the call.
\<close>

definition addLog :: "nat \<Rightarrow> LogLevel \<Rightarrow> string \<Rightarrow> Worker \<times> Event list \<Rightarrow> Worker \<times> Event list" where
  "addLog now level message wb =
     (let worker = fst wb;
          entry = \<lparr> l_timestamp = now, l_level = level,
                    l_source = ''worker-'' @ take 6 (w_id worker), l_message = message \<rparr>;
          pushed = w_logs worker @ [entry];
          logs' = (if length pushed > 500 then slice_last 500 pushed else pushed)
      in (worker\<lparr>w_logs := logs'\<rparr>, emit EvWorkerLog (w_id worker) (snd wb)))"

fun activity_name :: "ActivityType \<Rightarrow> string" where
  "activity_name ToolCall = ''tool_call''"
| "activity_name FileEdit = ''file_edit''"
| "activity_name FileCreate = ''file_create''"
| "activity_name Bash = ''bash''"
| "activity_name TextOut = ''text''"
| "activity_name ErrorOut = ''error''"
| "activity_name Thinking = ''thinking''"

definition addActivity ::
  "nat \<Rightarrow> ActivityType \<Rightarrow> string \<Rightarrow> Worker \<times> Event list \<Rightarrow> Worker \<times> Event list" where
  "addActivity now ty summary wb =
     (let worker = fst wb;
          activity = \<lparr> a_type = ty, a_summary = summary, a_timestamp = now \<rparr>;
          pushed = w_activity worker @ [activity];
          activity' = (if length pushed > 200 then slice_last 200 pushed else pushed)
      in addLog now LvInfo (''['' @ activity_name ty @ ''] '' @ summary)
           (worker\<lparr>w_activity := activity'\<rparr>, snd wb))"

definition newWorker :: "nat \<Rightarrow> string \<Rightarrow> Task \<Rightarrow> Worker" where
  \<comment> \<open>The record spawnWorker builds: \<open>workerId\<close> is nanoid(10).\<close>
  "newWorker now workerId task =
     \<lparr> w_id = workerId, w_status = WorkerRunning, w_taskId = Some (t_id task),
       w_logs = [], w_activity = [], w_startedAt = now, w_completedAt = None \<rparr>"

definition spawnWorker ::
  "nat \<Rightarrow> string \<Rightarrow> string \<Rightarrow> Task \<Rightarrow> Event list \<Rightarrow> Worker \<times> Event list" where
  \<comment> \<open>The synchronous part of spawnWorker; \<open>modelId\<close> is getWorkerModelId().\<close>
  "spawnWorker now workerId modelId task bus =
     addLog now LvInfo
       (''Worker spawned for task: '' @ t_title task @ '' (in-process, model: '' @ modelId @ '')'')
       (newWorker now workerId task, emit EvWorkerCreated workerId bus)"

text \<open>
  While the agent loop runs, the worker record is touched only through \<open>addLog\<close> and
  \<open>addActivity\<close>; one execution is a sequence of such calls, each at its own time.
\<close>

datatype WorkerOp = OpLog LogLevel string | OpActivity ActivityType string

fun applyOp :: "nat \<times> WorkerOp \<Rightarrow> Worker \<times> Event list \<Rightarrow> Worker \<times> Event list" where
  "applyOp (now, OpLog level message) wb = addLog now level message wb"
| "applyOp (now, OpActivity ty summary) wb = addActivity now ty summary wb"

fun runOps :: "(nat \<times> WorkerOp) list \<Rightarrow> Worker \<times> Event list \<Rightarrow> Worker \<times> Event list" where
  "runOps [] wb = wb"
| "runOps (op # ops) wb = runOps ops (applyOp op wb)"

text \<open>
  The settling of the worker's promise (the tail of spawnWorker's async block): \<open>Inr result\<close>
  when the agent loop returned, \<open>Inl errorMsg\<close> when it threw, which is also what an abort
  of the worker does (the loop rethrows it as the error Aborted). The task object is the
  one the scheduler handed to spawnWorker.
\<close>

definition settleWorker ::
  "nat \<Rightarrow> string + string \<Rightarrow> Worker \<times> Event list \<Rightarrow> Worker \<times> Event list" where
  "settleWorker now outcome wb =
     (case outcome of
        Inr result \<Rightarrow>
          addLog now LvInfo ''Task completed successfully''
            ((fst wb)\<lparr>w_status := WorkerCompleted, w_completedAt := Some now\<rparr>, snd wb)
      | Inl errorMsg \<Rightarrow>
          addLog now LvError (''Worker failed: '' @ errorMsg)
            ((fst wb)\<lparr>w_status := WorkerFailed, w_completedAt := Some now\<rparr>, snd wb))"

definition settleTask :: "nat \<Rightarrow> string + string \<Rightarrow> Task \<Rightarrow> Task" where
  "settleTask now outcome task =
     (case outcome of
        Inr result \<Rightarrow>
          task\<lparr>t_result := Some result, t_status := TaskCompleted, t_completedAt := Some now\<rparr>
      | Inl errorMsg \<Rightarrow>
          task\<lparr>t_status := TaskFailed, t_error := Some errorMsg, t_completedAt := Some now\<rparr>)"

section \<open>Run manager (orchestrator.ts)\<close>

definition MAX_CONCURRENT_WORKERS :: int where
  "MAX_CONCURRENT_WORKERS = 10"

definition or_default :: "int option \<Rightarrow> int \<Rightarrow> int" where
  \<comment> \<open>\<open>x || d\<close> on a number: undefined and 0 are falsy.\<close>
  "or_default x d = (case x of None \<Rightarrow> d | Some n \<Rightarrow> if n = 0 then d else n)"

definition createRun :: "nat \<Rightarrow> string \<Rightarrow> string \<Rightarrow> string \<Rightarrow> int option \<Rightarrow> Run" where
  \<comment> \<open>The run object createRun builds, which it then stores in the map of runs and
      announces with run:created. \<open>now\<close> is Date.now(), \<open>newId\<close> the result of nanoid(10),
      \<open>maxWorkers\<close> the optional argument.\<close>
  "createRun now newId goal targetDir maxWorkers =
     \<lparr> r_id = newId, r_goal = goal, r_targetDir = targetDir, r_status = RunIdle,
       r_analysis = [], r_tasks = [], r_judgements = [], r_workers = [],
       r_maxWorkers = Some (min (or_default maxWorkers 3) MAX_CONCURRENT_WORKERS),
       r_createdAt = now, r_completedAt = None, r_error = None \<rparr>"

definition saveRun :: "Run \<Rightarrow> Run" where
  \<comment> \<open>The data saveRun writes to the run's file: a copy of the run in which every worker
      keeps its last 100 log entries and its last 100 activity entries. The run in memory
      is not changed.\<close>
  "saveRun run =
     run\<lparr>r_workers :=
           map (\<lambda>w. w\<lparr>w_logs := slice_last 100 (w_logs w),
                       w_activity := slice_last 100 (w_activity w)\<rparr>) (r_workers run)\<rparr>"

text \<open>
  The module state of orchestrator.ts and worker.ts: the map of runs, the abort controller
  of each run whose pipeline is active (\<open>True\<close> once its signal is aborted), the ids in the
  worker module's table of active workers, the ids of the workers whose own signal has been
  aborted, and the event bus's log.
\<close>

record Manager =
  runs :: "string \<rightharpoonup> Run"
  runAborts :: "string \<rightharpoonup> bool"
  activeWorkers :: "string list"
  abortedWorkers :: "string list"
  bus :: "Event list"

datatype Error =
  RunNotFound string
  | CannotStart string RunStatus
  | CannotPause string RunStatus
  | CannotResume string RunStatus

definition abortRun :: "string \<Rightarrow> Manager \<Rightarrow> Manager" where
  \<comment> \<open>\<open>runAborts.get(runId)?.abort()\<close>\<close>
  "abortRun runId m =
     (case runAborts m runId of
        None \<Rightarrow> m
      | Some _ \<Rightarrow> m\<lparr>runAborts := (runAborts m)(runId \<mapsto> True)\<rparr>)"

definition killWorker :: "string \<Rightarrow> Manager \<Rightarrow> Manager" where
  "killWorker workerId m =
     (if workerId \<in> set (activeWorkers m)
      then m\<lparr>abortedWorkers := abortedWorkers m @ [workerId],
             activeWorkers := removeAll workerId (activeWorkers m)\<rparr>
      else m)"

definition killWorkers :: "string list \<Rightarrow> Manager \<Rightarrow> Manager" where
  "killWorkers workerIds m = fold killWorker workerIds m"

definition getRunningWorkerIds :: "Run \<Rightarrow> string list" where
  "getRunningWorkerIds run = map w_id (filter (\<lambda>w. w_status w = WorkerRunning) (r_workers run))"

definition failRunningWorker :: "nat \<Rightarrow> Worker \<Rightarrow> Worker" where
  "failRunningWorker now worker =
     (if w_status worker = WorkerRunning
      then worker\<lparr>w_status := WorkerFailed, w_completedAt := Some now\<rparr>
      else worker)"

definition rollbackTask :: "Task \<Rightarrow> Task" where
  "rollbackTask task =
     (if t_status task = TaskInProgress
      then task\<lparr>t_status := TaskPending, t_startedAt := None\<rparr>
      else task)"

text \<open>
  stopRun and pauseRun each await killWorkers once. Everything before the await runs
  without interruption, and so does everything after it; at the await, continuations of
  other promises (a worker that settles) may run. Each function is therefore two steps,
  \<open>_begin\<close> up to the await and \<open>_finish\<close> after it, and their composition is the call
  with nothing running in between.
\<close>

definition stopRun_begin :: "string \<Rightarrow> Manager \<Rightarrow> Error + Manager" where
  "stopRun_begin runId m =
     (case runs m runId of
        None \<Rightarrow> Inl (RunNotFound runId)
      | Some run \<Rightarrow> Inr (killWorkers (getRunningWorkerIds run) (abortRun runId m)))"

definition stopRun_finish :: "nat \<Rightarrow> string \<Rightarrow> Manager \<Rightarrow> Manager" where
  "stopRun_finish now runId m =
     (case runs m runId of
        None \<Rightarrow> m
      | Some run \<Rightarrow>
          m\<lparr>runs := (runs m)(runId \<mapsto>
               run\<lparr>r_workers := map (failRunningWorker now) (r_workers run),
                   r_tasks := map rollbackTask (r_tasks run),
                   r_status := RunStopped,
                   r_completedAt := Some now\<rparr>),
            bus := emit EvRunUpdated runId (bus m)\<rparr>)"

definition stopRun :: "nat \<Rightarrow> string \<Rightarrow> Manager \<Rightarrow> Error + Manager" where
  "stopRun now runId m = map_sum (\<lambda>e. e) (stopRun_finish now runId) (stopRun_begin runId m)"

definition pauseRun_begin :: "string \<Rightarrow> Manager \<Rightarrow> Error + Manager" where
  "pauseRun_begin runId m =
     (case runs m runId of
        None \<Rightarrow> Inl (RunNotFound runId)
      | Some run \<Rightarrow>
          if r_status run \<notin> {RunPlanning, RunExecuting, RunJudging}
          then Inl (CannotPause runId (r_status run))
          else Inr (killWorkers (getRunningWorkerIds (run\<lparr>r_status := RunPaused\<rparr>))
                      (abortRun runId
                        (m\<lparr>runs := (runs m)(runId \<mapsto> run\<lparr>r_status := RunPaused\<rparr>)\<rparr>))))"

definition pauseRun_finish :: "string \<Rightarrow> Manager \<Rightarrow> Manager" where
  "pauseRun_finish runId m =
     (case runs m runId of
        None \<Rightarrow> m
      | Some run \<Rightarrow>
          m\<lparr>runs := (runs m)(runId \<mapsto> run\<lparr>r_tasks := map rollbackTask (r_tasks run)\<rparr>),
            bus := emit EvLog ''Run paused. Use resume to continue.''
                     (emit EvRunUpdated runId (bus m))\<rparr>)"

definition pauseRun :: "string \<Rightarrow> Manager \<Rightarrow> Error + Manager" where
  "pauseRun runId m = map_sum (\<lambda>e. e) (pauseRun_finish runId) (pauseRun_begin runId m)"

text \<open>
  The guards of the two sibling operations. startRun then runs the pipeline; resumeRun
  reopens a stopped run as paused, clears \<open>completedAt\<close> and calls startRun.
\<close>

definition startRun_check :: "string \<Rightarrow> Manager \<Rightarrow> Error + Run" where
  "startRun_check runId m =
     (case runs m runId of
        None \<Rightarrow> Inl (RunNotFound runId)
      | Some run \<Rightarrow>
          if r_status run \<notin> {RunIdle, RunPaused} then Inl (CannotStart runId (r_status run))
          else Inr run)"

definition resumeRun_begin :: "string \<Rightarrow> Manager \<Rightarrow> Error + Manager" where
  "resumeRun_begin runId m =
     (case runs m runId of
        None \<Rightarrow> Inl (RunNotFound runId)
      | Some run \<Rightarrow>
          if r_status run \<notin> {RunPaused, RunStopped} then Inl (CannotResume runId (r_status run))
          else Inr (m\<lparr>runs := (runs m)(runId \<mapsto>
                         (if r_status run = RunStopped
                          then run\<lparr>r_status := RunPaused, r_completedAt := None\<rparr> else run)),
                      bus := emit EvLog ''Resuming run...'' (bus m)\<rparr>))"

text \<open>
  The continuation of a worker's promise, on the shared state. The scheduler handed
  spawnWorker the task object at index \<open>ti\<close> of \<open>run.tasks\<close> and pushed the worker record
  onto \<open>run.workers\<close>, where it sits at index \<open>wi\<close>; both arrays only grow, so the indices
  name the same objects for the whole run. The continuation writes the worker's and the
  task's terminal fields, logs, and emits worker:updated and task:updated.
\<close>

definition workerSettles ::
  "nat \<Rightarrow> string \<Rightarrow> nat \<Rightarrow> nat \<Rightarrow> string + string \<Rightarrow> Manager \<Rightarrow> Manager" where
  "workerSettles now runId ti wi outcome m =
     (case runs m runId of
        None \<Rightarrow> m
      | Some run \<Rightarrow>
          if ti < length (r_tasks run) \<and> wi < length (r_workers run) then
            let wb = settleWorker now outcome (r_workers run ! wi, bus m);
                task = settleTask now outcome (r_tasks run ! ti)
            in m\<lparr>runs := (runs m)(runId \<mapsto>
                     run\<lparr>r_workers := (r_workers run)[wi := fst wb],
                         r_tasks := (r_tasks run)[ti := task]\<rparr>),
                  bus := emit EvTaskUpdated (t_id task)
                           (emit EvWorkerUpdated (w_id (fst wb)) (snd wb))\<rparr>
          else m)"

section \<open>Concrete runs\<close>

text \<open>Small records on which the operations are evaluated.\<close>

definition mkTask :: "string \<Rightarrow> string \<Rightarrow> TaskStatus \<Rightarrow> int \<Rightarrow> string list \<Rightarrow> Task" where
  "mkTask i title st prio deps =
     \<lparr> t_id = i, t_title = title, t_description = [], t_status = st, t_priority = prio,
       t_dependencies = deps, t_result = None, t_error = None, t_spawnedBy = None,
       t_createdAt = 0, t_startedAt = (if st = TaskInProgress then Some 10 else None),
       t_completedAt = None \<rparr>"

definition mkWorker :: "string \<Rightarrow> string \<Rightarrow> WorkerStatus \<Rightarrow> Worker" where
  "mkWorker i tid st =
     \<lparr> w_id = i, w_status = st, w_taskId = Some tid, w_logs = [], w_activity = [],
       w_startedAt = 10, w_completedAt = None \<rparr>"

definition mkRun ::
  "string \<Rightarrow> RunStatus \<Rightarrow> Task list \<Rightarrow> Worker list \<Rightarrow> int \<Rightarrow> nat option \<Rightarrow> Run" where
  "mkRun i st ts ws mw done =
     \<lparr> r_id = i, r_goal = ''goal'', r_targetDir = ''/tmp'', r_status = st, r_analysis = [],
       r_tasks = ts, r_judgements = [], r_workers = ws, r_maxWorkers = Some mw,
       r_createdAt = 0, r_completedAt = done, r_error = None \<rparr>"

definition mkManager :: "Run \<Rightarrow> bool \<Rightarrow> string list \<Rightarrow> Manager" where
  \<comment> \<open>One run in the map; \<open>active\<close> says whether its pipeline (and abort controller) exists.\<close>
  "mkManager run active ws =
     \<lparr> runs = [r_id run \<mapsto> run],
       runAborts = (if active then [r_id run \<mapsto> False] else Map.empty),
       activeWorkers = ws, abortedWorkers = [], bus = [] \<rparr>"

definition runOf :: "string \<Rightarrow> Error + Manager \<Rightarrow> Run option" where
  "runOf runId res = (case res of Inl e \<Rightarrow> None | Inr m \<Rightarrow> runs m runId)"

definition taskStates ::
  "string \<Rightarrow> Error + Manager \<Rightarrow> (TaskStatus \<times> nat option \<times> string option) list" where
  \<comment> \<open>Status, startedAt and error of each task of the run.\<close>
  "taskStates runId res =
     (case runOf runId res of
        None \<Rightarrow> []
      | Some run \<Rightarrow> map (\<lambda>t. (t_status t, t_startedAt t, t_error t)) (r_tasks run))"

definition stoppedRun :: Manager where
  \<comment> \<open>A run stopped at time 100, its pipeline gone.\<close>
  "stoppedRun = mkManager (mkRun ''r1'' RunStopped [] [] 3 (Some 100)) False []"

definition completedRun :: Manager where
  "completedRun =
     mkManager (mkRun ''r1'' RunCompleted [mkTask ''t1'' ''T1'' TaskCompleted 1 []] [] 3 (Some 100))
       False []"

definition busyRun :: Manager where
  \<comment> \<open>An executing run with one task in progress since time 10 and its worker running.\<close>
  "busyRun =
     mkManager (mkRun ''r1'' RunExecuting [mkTask ''t1'' ''T1'' TaskInProgress 1 []]
       [mkWorker ''w1'' ''t1'' WorkerRunning] 3 None) True [''w1'']"

section \<open>The pipeline (executePipeline in orchestrator.ts)\<close>

text \<open>
  The state one call of executePipeline works on: the run object, the abort signal of the
  run's controller, the closure variables \<open>runningTasks\<close> (a Map from task id to promise,
  of which only the keys matter, in insertion order), \<open>judgeQueue\<close> and \<open>judging\<close>, the
  worker module's table of active workers, the event bus's log, and the number of ids
  drawn from nanoid so far. The queue holds task objects of \<open>run.tasks\<close>; an object is
  named by its index in \<open>run.tasks\<close>, which only grows.

  Throughout, \<open>nanoid :: nat \<Rightarrow> string\<close> gives the id returned by the n-th call of the id
  generator, \<open>now\<close> is Date.now() and \<open>modelId\<close> is getWorkerModelId().
\<close>

record Sched =
  s_run :: Run
  s_aborted :: bool
  s_runningTasks :: "string list"
  s_judgeQueue :: "nat list"
  s_judging :: bool
  s_activeWorkers :: "string list"
  s_bus :: "Event list"
  s_nextId :: nat

definition depCompleted :: "Task list \<Rightarrow> string \<Rightarrow> bool" where
  \<comment> \<open>\<open>run.tasks.find((t) => t.id === depId)?.status === "completed"\<close>\<close>
  "depCompleted tasks depId =
     (case find (\<lambda>t. t_id t = depId) tasks of
        None \<Rightarrow> False
      | Some depTask \<Rightarrow> t_status depTask = TaskCompleted)"

definition isReady :: "Task list \<Rightarrow> Task \<Rightarrow> bool" where
  "isReady tasks task =
     (if t_status task \<noteq> TaskPending then False
      else list_all (depCompleted tasks) (t_dependencies task))"

definition getReadyTasks :: "Run \<Rightarrow> nat list" where
  \<comment> \<open>The filter over \<open>run.tasks\<close>, as the indices of the tasks it keeps, in array order.\<close>
  "getReadyTasks r =
     filter (\<lambda>i. isReady (r_tasks r) (r_tasks r ! i)) [0..<length (r_tasks r)]"

definition slotsFull :: "Sched \<Rightarrow> bool" where
  \<comment> \<open>\<open>runningTasks.size >= run.maxWorkers\<close>; a comparison with undefined is false.\<close>
  "slotsFull s =
     (case r_maxWorkers (s_run s) of
        None \<Rightarrow> False
      | Some mw \<Rightarrow> int (length (s_runningTasks s)) \<ge> mw)"

definition markStarted :: "nat \<Rightarrow> Task \<Rightarrow> Task" where
  "markStarted now task = task\<lparr>t_status := TaskInProgress, t_startedAt := Some now\<rparr>"

definition startTask :: "nat \<Rightarrow> (nat \<Rightarrow> string) \<Rightarrow> string \<Rightarrow> nat \<Rightarrow> Sched \<Rightarrow> Sched" where
  \<comment> \<open>The body of the spawn loop for the task object at index \<open>i\<close>.\<close>
  "startTask now nanoid modelId i s =
     (let r = s_run s;
          task = markStarted now (r_tasks r ! i);
          b1 = emit EvLog (''Starting task: '' @ t_title task)
                 (emit EvTaskUpdated (t_id task) (s_bus s));
          wb = spawnWorker now (nanoid (s_nextId s)) modelId task b1
      in s\<lparr>s_run := r\<lparr>r_tasks := (r_tasks r)[i := task],
                        r_workers := r_workers r @ [fst wb]\<rparr>,
            s_activeWorkers := s_activeWorkers s @ [w_id (fst wb)],
            s_bus := emit EvRunUpdated (r_id r) (snd wb),
            s_runningTasks :=
              (if t_id task \<in> set (s_runningTasks s) then s_runningTasks s
               else s_runningTasks s @ [t_id task]),
            s_nextId := Suc (s_nextId s)\<rparr>)"

fun spawnLoop :: "nat \<Rightarrow> (nat \<Rightarrow> string) \<Rightarrow> string \<Rightarrow> nat list \<Rightarrow> Sched \<Rightarrow> Sched" where
  "spawnLoop now nanoid modelId [] s = s"
| "spawnLoop now nanoid modelId (i # rest) s =
     (if slotsFull s then s
      else if s_aborted s then s
      else spawnLoop now nanoid modelId rest (startTask now nanoid modelId i s))"

definition spawnPhase :: "nat \<Rightarrow> (nat \<Rightarrow> string) \<Rightarrow> string \<Rightarrow> Sched \<Rightarrow> Sched" where
  \<comment> \<open>The head of one iteration of the main loop: the two break tests, then the spawn loop
      over the ready tasks computed once, before the loop.\<close>
  "spawnPhase now nanoid modelId s =
     (if s_aborted s then s
      else if r_status (s_run s) = RunCompleted then s
      else spawnLoop now nanoid modelId (getReadyTasks (s_run s)) s)"

definition markAll :: "nat \<Rightarrow> nat list \<Rightarrow> Task list \<Rightarrow> Task list" where
  \<comment> \<open>The task array with the objects at the given indices marked as started.\<close>
  "markAll now js tasks = fold (\<lambda>i ts. ts[i := markStarted now (ts ! i)]) js tasks"

definition mkSched :: "Run \<Rightarrow> Sched" where
  \<comment> \<open>The state at the start of the main loop of a fresh pipeline.\<close>
  "mkSched r =
     \<lparr> s_run = r, s_aborted = False, s_runningTasks = [], s_judgeQueue = [],
       s_judging = False, s_activeWorkers = [], s_bus = [], s_nextId = 0 \<rparr>"

definition idOf :: "nat \<Rightarrow> string" where
  \<comment> \<open>An id generator for concrete runs: the n-th id is \<open>n + 1\<close> letters x.\<close>
  "idOf n = replicate (Suc n) CHR ''x''"

definition prioRun :: Sched where
  \<comment> \<open>Two ready tasks, the later one with the smaller priority value, and one worker slot.\<close>
  "prioRun =
     mkSched (mkRun ''r1'' RunExecuting
       [mkTask ''a'' ''A'' TaskPending 5 [], mkTask ''b'' ''B'' TaskPending 1 []] [] 1 None)"

definition depRun :: Sched where
  \<comment> \<open>T2 depends on the completed T1, T3 on the pending T2.\<close>
  "depRun =
     mkSched (mkRun ''r1'' RunExecuting
       [mkTask ''t1'' ''T1'' TaskCompleted 1 [],
        mkTask ''t2'' ''T2'' TaskPending 2 [''t1''],
        mkTask ''t3'' ''T3'' TaskPending 3 [''t2'']] [] 3 None)"

section \<open>The judge queue (processJudgeQueue in orchestrator.ts)\<close>

text \<open>
  What judgeTaskCompletion resolves to. The fields \<open>priority\<close> and \<open>dependencies\<close> of a
  new task come from parsed JSON and may be missing.
\<close>

record NewTaskSpec =
  nt_title :: string
  nt_description :: string
  nt_priority :: "int option"
  nt_dependencies :: "string list option"

record JudgeResult =
  jr_assessment :: string
  jr_goalComplete :: bool
  jr_newTasks :: "NewTaskSpec list"

text \<open>
  String.prototype.toLowerCase belongs to the JavaScript engine and its Unicode tables,
  not to this repository. The functions that call it take it as the parameter
  \<open>toLowerCase\<close>, so each of them says what the code does for every title, whatever its
  letters.
\<close>

definition findByTitle :: "(string \<Rightarrow> string) \<Rightarrow> Task list \<Rightarrow> string \<Rightarrow> Task option" where
  \<comment> \<open>\<open>run.tasks.find((t) => t.title.toLowerCase() === depTitle.toLowerCase())\<close>\<close>
  "findByTitle toLowerCase tasks depTitle =
     find (\<lambda>t. toLowerCase (t_title t) = toLowerCase depTitle) tasks"

fun keepTruthy :: "string option list \<Rightarrow> string list" where
  \<comment> \<open>\<open>.filter(Boolean)\<close>: undefined and the empty string are dropped.\<close>
  "keepTruthy [] = []"
| "keepTruthy (None # xs) = keepTruthy xs"
| "keepTruthy (Some i # xs) = (if i = [] then keepTruthy xs else i # keepTruthy xs)"

definition resolveDependencies ::
  "(string \<Rightarrow> string) \<Rightarrow> Task list \<Rightarrow> string list \<Rightarrow> string list" where
  "resolveDependencies toLowerCase tasks depTitles =
     keepTruthy
       (map (\<lambda>depTitle. map_option t_id (findByTitle toLowerCase tasks depTitle)) depTitles)"

definition makeFollowUp ::
  "(string \<Rightarrow> string) \<Rightarrow> nat \<Rightarrow> string \<Rightarrow> string \<Rightarrow> Task list \<Rightarrow> NewTaskSpec \<Rightarrow> Task" where
  \<comment> \<open>The task built for one entry of \<open>result.newTasks\<close>; \<open>tasks\<close> is \<open>run.tasks\<close> at that
      moment.\<close>
  "makeFollowUp toLowerCase now taskId judgementId tasks nt =
     \<lparr> t_id = taskId, t_title = nt_title nt, t_description = nt_description nt,
       t_status = TaskPending, t_priority = or_default (nt_priority nt) 5,
       t_dependencies =
         (case nt_dependencies nt of
            None \<Rightarrow> []
          | Some depTitles \<Rightarrow>
              if length depTitles > 0 then resolveDependencies toLowerCase tasks depTitles
              else []),
       t_result = None, t_error = None, t_spawnedBy = Some judgementId,
       t_createdAt = now, t_startedAt = None, t_completedAt = None \<rparr>"

fun spawnFollowUps ::
  "(string \<Rightarrow> string) \<Rightarrow> nat \<Rightarrow> (nat \<Rightarrow> string) \<Rightarrow> string \<Rightarrow> NewTaskSpec list
     \<Rightarrow> Sched \<times> string list \<Rightarrow> Sched \<times> string list" where
  \<comment> \<open>The loop over \<open>result.newTasks\<close>; the second component is \<open>newTaskIds\<close>.\<close>
  "spawnFollowUps toLowerCase now nanoid judgementId [] acc = acc"
| "spawnFollowUps toLowerCase now nanoid judgementId (nt # nts) acc =
     (let s = fst acc;
          r = s_run s;
          newTask = makeFollowUp toLowerCase now (nanoid (s_nextId s)) judgementId (r_tasks r) nt
      in spawnFollowUps toLowerCase now nanoid judgementId nts
           (s\<lparr>s_run := r\<lparr>r_tasks := r_tasks r @ [newTask]\<rparr>,
              s_bus := emit EvLog (''Spawned follow-up task: '' @ t_title newTask)
                         (emit EvTaskUpdated (t_id newTask) (s_bus s)),
              s_nextId := Suc (s_nextId s)\<rparr>,
            snd acc @ [t_id newTask]))"

definition cancelIfPending :: "Task \<Rightarrow> Task" where
  "cancelIfPending t = (if t_status t = TaskPending then t\<lparr>t_status := TaskCancelled\<rparr> else t)"

definition cancelPending :: "Sched \<Rightarrow> Sched" where
  \<comment> \<open>The loop over \<open>run.tasks\<close> after a goalComplete result, with its task:updated events.\<close>
  "cancelPending s =
     s\<lparr>s_run := (s_run s)\<lparr>r_tasks := map cancelIfPending (r_tasks (s_run s))\<rparr>,
       s_bus := fold (\<lambda>t b. if t_status t = TaskPending then emit EvTaskUpdated (t_id t) b else b)
                  (r_tasks (s_run s)) (s_bus s)\<rparr>"

definition recordJudgement ::
  "(string \<Rightarrow> string) \<Rightarrow> nat \<Rightarrow> (nat \<Rightarrow> string) \<Rightarrow> Task \<Rightarrow> JudgeResult \<Rightarrow> Sched \<Rightarrow> Sched" where
  \<comment> \<open>The first half of the try block: create the follow-up tasks and push the judgement.\<close>
  "recordJudgement toLowerCase now nanoid task result s =
     (let s3 =
        (if length (jr_newTasks result) > 0 then
           let judgementId = nanoid (s_nextId s);
               sf = spawnFollowUps toLowerCase now nanoid judgementId (jr_newTasks result)
                      (s\<lparr>s_nextId := Suc (s_nextId s)\<rparr>, []);
               s2 = fst sf;
               judgement = \<lparr> j_id = judgementId, j_taskId = t_id task,
                             j_assessment = jr_assessment result, j_newTaskIds = snd sf,
                             j_goalComplete = jr_goalComplete result, j_timestamp = now \<rparr>
           in s2\<lparr>s_run := (s_run s2)\<lparr>r_judgements := r_judgements (s_run s2) @ [judgement]\<rparr>,
                 s_bus := emit EvJudgementCreated judgementId (s_bus s2)\<rparr>
         else
           let judgement = \<lparr> j_id = nanoid (s_nextId s), j_taskId = t_id task,
                             j_assessment = jr_assessment result, j_newTaskIds = [],
                             j_goalComplete = jr_goalComplete result, j_timestamp = now \<rparr>
           in s\<lparr>s_run := (s_run s)\<lparr>r_judgements := r_judgements (s_run s) @ [judgement]\<rparr>,
                 s_bus := emit EvJudgementCreated (j_id judgement) (s_bus s),
                 s_nextId := Suc (s_nextId s)\<rparr>)
      in s3\<lparr>s_bus := emit EvLog (jr_assessment result) (s_bus s3)\<rparr>)"

definition backToExecuting :: "Sched \<Rightarrow> Sched" where
  \<comment> \<open>The end of one iteration: a run still in status judging goes back to executing.\<close>
  "backToExecuting s =
     (if r_status (s_run s) = RunJudging
      then s\<lparr>s_run := (s_run s)\<lparr>r_status := RunExecuting\<rparr>,
             s_bus := emit EvRunUpdated (r_id (s_run s)) (s_bus s)\<rparr>
      else s)"

text \<open>
  One iteration of the queue loop is two uninterrupted steps around the await of the
  judge. \<open>judgeBegin\<close> takes the task off the queue and sets the status judging.
  \<open>judgeEnd\<close> is everything after the judge has settled, with \<open>Inr result\<close> when it
  resolved and \<open>Inl msg\<close> when it threw; its second component tells whether
  processJudgeQueue returned (\<open>True\<close>) or the loop goes on (\<open>False\<close>).
\<close>

definition judgeBegin :: "Task \<Rightarrow> Sched \<Rightarrow> Sched" where
  "judgeBegin task s =
     s\<lparr>s_judgeQueue := tl (s_judgeQueue s),
       s_run := (s_run s)\<lparr>r_status := RunJudging\<rparr>,
       s_bus := emit EvLog (''Evaluating task: '' @ t_title task)
                  (emit EvRunUpdated (r_id (s_run s)) (s_bus s))\<rparr>"

definition judgeEnd ::
  "(string \<Rightarrow> string) \<Rightarrow> nat \<Rightarrow> (nat \<Rightarrow> string) \<Rightarrow> Task \<Rightarrow> string + JudgeResult \<Rightarrow> Sched
     \<Rightarrow> Sched \<times> bool" where
  "judgeEnd toLowerCase now nanoid task outcome s =
     (case outcome of
        Inr result \<Rightarrow>
          let s1 = recordJudgement toLowerCase now nanoid task result s in
          if jr_goalComplete result then
            let s2 = cancelPending s1;
                stillRunning = list_ex (\<lambda>t. t_status t = TaskInProgress) (r_tasks (s_run s2))
            in if \<not> stillRunning then
                 (s2\<lparr>s_run := (s_run s2)\<lparr>r_status := RunCompleted, r_completedAt := Some now\<rparr>,
                     s_bus := emit EvLog ''Goal achieved! Run completed.''
                                (emit EvRunCompleted (r_id (s_run s2)) (s_bus s2)),
                     s_judging := False\<rparr>, True)
               else
                 (backToExecuting
                    (s2\<lparr>s_bus := emit EvLog
                          ''Goal marked complete - waiting for running tasks to finish.''
                          (s_bus s2)\<rparr>), False)
          else (backToExecuting s1, False)
      | Inl msg \<Rightarrow>
          (backToExecuting
             (s\<lparr>s_run := (s_run s)\<lparr>r_judgements := r_judgements (s_run s) @
                    [\<lparr> j_id = nanoid (s_nextId s), j_taskId = t_id task,
                       j_assessment = ''Judge error: '' @ msg, j_newTaskIds = [],
                       j_goalComplete = False, j_timestamp = now \<rparr>]\<rparr>,
                s_bus := emit EvLog (''Judge error: '' @ msg) (s_bus s),
                s_nextId := Suc (s_nextId s)\<rparr>), False))"

text \<open>
  The loop, run with nothing else scheduled at its awaits. The judge is a parameter: for
  the run and the task it is called with, it gives the time at which it settles and its
  outcome. The queue entries are task objects, named by their index in \<open>run.tasks\<close>.
  The list argument of \<open>drainQueue\<close> is the queue as the loop's test reads it; it is
  \<open>s_judgeQueue\<close> at every test when the loop is entered through \<open>processJudgeQueue\<close>.
  (The source writes a dash in the log message about waiting for running tasks; the
  model writes a hyphen.)
\<close>

fun drainQueue ::
  "(string \<Rightarrow> string) \<Rightarrow> (nat \<Rightarrow> string) \<Rightarrow> (Run \<Rightarrow> Task \<Rightarrow> nat \<times> (string + JudgeResult))
     \<Rightarrow> nat list \<Rightarrow> Sched \<Rightarrow> Sched" where
  "drainQueue toLowerCase nanoid judge [] s = s\<lparr>s_judging := False\<rparr>"
| "drainQueue toLowerCase nanoid judge (ti # rest) s =
     (if s_aborted s then s\<lparr>s_judging := False\<rparr>
      else
        let task = r_tasks (s_run s) ! ti;
            s1 = judgeBegin task s;
            answer = judge (s_run s1) task;
            se = judgeEnd toLowerCase (fst answer) nanoid task (snd answer) s1
        in if snd se then fst se else drainQueue toLowerCase nanoid judge rest (fst se))"

definition processJudgeQueue ::
  "(string \<Rightarrow> string) \<Rightarrow> (nat \<Rightarrow> string) \<Rightarrow> (Run \<Rightarrow> Task \<Rightarrow> nat \<times> (string + JudgeResult))
     \<Rightarrow> Sched \<Rightarrow> Sched" where
  "processJudgeQueue toLowerCase nanoid judge s =
     (if s_judging s then s
      else drainQueue toLowerCase nanoid judge (s_judgeQueue s) (s\<lparr>s_judging := True\<rparr>))"

text \<open>
  On a string of ASCII characters toLowerCase replaces each of the capital letters A to Z
  by its small letter and leaves every other character as it is. \<open>asciiLowerCase\<close> is
  that function; it stands for toLowerCase where a run with ASCII titles is evaluated.
\<close>

definition capitalLetters :: string where
  "capitalLetters = ''ABCDEFGHIJKLMNOPQRSTUVWXYZ''"

definition smallLetters :: string where
  "smallLetters = ''abcdefghijklmnopqrstuvwxyz''"

definition asciiLowerChar :: "char \<Rightarrow> char" where
  "asciiLowerChar c =
     (case map_of (zip capitalLetters smallLetters) c of None \<Rightarrow> c | Some l \<Rightarrow> l)"

definition asciiLowerCase :: "string \<Rightarrow> string" where
  "asciiLowerCase s = map asciiLowerChar s"

definition isAscii :: "string \<Rightarrow> bool" where
  "isAscii s = list_all (\<lambda>c. (of_char c :: nat) < 128) s"

text \<open>
  Equality of two titles up to the case of their letters, written from the words of the
  property and not from the code: the strings have the same length and, position by
  position, the characters are equal or are a capital letter and its small letter.
\<close>

definition sameLetter :: "char \<Rightarrow> char \<Rightarrow> bool" where
  "sameLetter a b =
     (a = b \<or> (a, b) \<in> set (zip capitalLetters smallLetters)
            \<or> (b, a) \<in> set (zip capitalLetters smallLetters))"

definition equalIgnoringCase :: "string \<Rightarrow> string \<Rightarrow> bool" where
  "equalIgnoringCase xs ys = list_all2 sameLetter xs ys"

definition judgeRun :: Sched where
  \<comment> \<open>T1 has finished and waits in the judge queue; T2 is still pending.\<close>
  "judgeRun =
     (mkSched (mkRun ''r1'' RunExecuting
        [mkTask ''t1'' ''T1'' TaskCompleted 1 [], mkTask ''t2'' ''T2'' TaskPending 2 []] [] 3 None))
       \<lparr>s_judgeQueue := [0], s_judging := True\<rparr>"

definition failingJudge :: "Run \<Rightarrow> Task \<Rightarrow> nat \<times> (string + JudgeResult)" where
  "failingJudge r t = (70, Inl ''boom'')"

definition doneJudge :: "Run \<Rightarrow> Task \<Rightarrow> nat \<times> (string + JudgeResult)" where
  "doneJudge r t =
     (70, Inr \<lparr> jr_assessment = ''done'', jr_goalComplete = True, jr_newTasks = [] \<rparr>)"

definition followUpSpecs :: "NewTaskSpec list" where
  \<comment> \<open>Two new tasks of one judgement. The second names the first and an old task, each in
      another letter case, a title that differs from the first by one letter, and a title
      no task has.\<close>
  "followUpSpecs =
     [\<lparr> nt_title = ''Build'', nt_description = ''build it'', nt_priority = None,
        nt_dependencies = None \<rparr>,
      \<lparr> nt_title = ''Test'', nt_description = ''test it'', nt_priority = Some 2,
        nt_dependencies = Some [''BUILD'', ''t1'', ''Guild'', ''nosuch''] \<rparr>]"

section \<open>Loading saved runs (loadState in orchestrator.ts)\<close>

text \<open>
  What JSON.parse gives for one saved file. A field is an option where loadState tests
  for its absence (or trips over it); the other fields are taken as the type \<open>Run\<close>
  declares them. A legacy record has \<open>cycles\<close> and no \<open>tasks\<close>.
\<close>

record RawWorker =
  rw_id :: string
  rw_status :: WorkerStatus
  rw_taskId :: "string option"
  rw_logs :: "LogEntry list"
  rw_activity :: "WorkerActivity list option"
  rw_startedAt :: nat
  rw_completedAt :: "nat option"

record RawPlan =
  rp_analysis :: "string option"
  rp_tasks :: "Task list option"

record RawCycle =
  rc_plan :: "RawPlan option"
  rc_judgement :: "string option"
  rc_shouldContinue :: "bool option"
  rc_completedAt :: "nat option"

record RawRun =
  raw_id :: string
  raw_goal :: string
  raw_targetDir :: string
  raw_status :: RunStatus
  raw_cycles :: "RawCycle list option"
  raw_tasks :: "Task list option"
  raw_judgements :: "Judgement list option"
  raw_analysis :: "string option"
  raw_workers :: "RawWorker list option"
  raw_maxWorkers :: "int option"
  raw_createdAt :: nat
  raw_completedAt :: "nat option"
  raw_error :: "string option"

fun migrateCycles ::
  "nat \<Rightarrow> (nat \<Rightarrow> string) \<Rightarrow> RawCycle list \<Rightarrow> Task list \<times> Judgement list \<times> string \<times> nat
     \<Rightarrow> Task list \<times> Judgement list \<times> string \<times> nat" where
  \<comment> \<open>The loop over \<open>raw.cycles\<close>, on \<open>allTasks\<close>, \<open>allJudgements\<close>, \<open>analysis\<close> and the
      count of ids drawn.\<close>
  "migrateCycles now nanoid [] acc = acc"
| "migrateCycles now nanoid (cycle # cycles) (allTasks, allJudgements, analysis, n) =
     (let analysis' =
            (case rc_plan cycle of
               None \<Rightarrow> analysis
             | Some plan \<Rightarrow>
                 (case rp_analysis plan of
                    None \<Rightarrow> analysis
                  | Some a \<Rightarrow> if a \<noteq> [] \<and> analysis = [] then a else analysis));
          allTasks' =
            (case rc_plan cycle of
               None \<Rightarrow> allTasks
             | Some plan \<Rightarrow>
                 (case rp_tasks plan of None \<Rightarrow> allTasks | Some ts \<Rightarrow> allTasks @ ts));
          judged = (case rc_judgement cycle of None \<Rightarrow> False | Some j \<Rightarrow> j \<noteq> []);
          allJudgements' =
            (if judged then
               allJudgements @
                 [\<lparr> j_id = nanoid n, j_taskId = [],
                    j_assessment = (case rc_judgement cycle of None \<Rightarrow> [] | Some j \<Rightarrow> j),
                    j_newTaskIds = [],
                    j_goalComplete = (rc_shouldContinue cycle \<noteq> Some True),
                    j_timestamp =
                      (case rc_completedAt cycle of
                         None \<Rightarrow> now
                       | Some t \<Rightarrow> if t = 0 then now else t) \<rparr>]
             else allJudgements)
      in migrateCycles now nanoid cycles
           (allTasks', allJudgements', analysis', if judged then Suc n else n))"

definition castRun :: "RawRun \<Rightarrow> Run" where
  \<comment> \<open>\<open>raw as Run\<close>, followed by the defaults for \<open>tasks\<close>, \<open>judgements\<close> and \<open>analysis\<close>.
      The workers are kept apart by \<open>shapeRun\<close>; \<open>r_workers\<close> is not yet set.\<close>
  "castRun raw =
     \<lparr> r_id = raw_id raw, r_goal = raw_goal raw, r_targetDir = raw_targetDir raw,
       r_status = raw_status raw,
       r_analysis = (case raw_analysis raw of None \<Rightarrow> [] | Some a \<Rightarrow> a),
       r_tasks = (case raw_tasks raw of None \<Rightarrow> [] | Some ts \<Rightarrow> ts),
       r_judgements = (case raw_judgements raw of None \<Rightarrow> [] | Some js \<Rightarrow> js),
       r_workers = [], r_maxWorkers = raw_maxWorkers raw,
       r_createdAt = raw_createdAt raw, r_completedAt = raw_completedAt raw,
       r_error = raw_error raw \<rparr>"

definition migrateRun :: "nat \<Rightarrow> (nat \<Rightarrow> string) \<Rightarrow> nat \<Rightarrow> RawCycle list \<Rightarrow> RawRun \<Rightarrow> Run \<times> nat" where
  \<comment> \<open>The run built from a legacy record.\<close>
  "migrateRun now nanoid n cycles raw =
     (case migrateCycles now nanoid cycles ([], [], [], n) of
        (allTasks, allJudgements, analysis, n') \<Rightarrow>
          (\<lparr> r_id = raw_id raw, r_goal = raw_goal raw, r_targetDir = raw_targetDir raw,
             r_status = raw_status raw, r_analysis = analysis, r_tasks = allTasks,
             r_judgements = allJudgements, r_workers = [],
             r_maxWorkers = Some (or_default (raw_maxWorkers raw) 3),
             r_createdAt = raw_createdAt raw, r_completedAt = raw_completedAt raw,
             r_error = raw_error raw \<rparr>, n'))"

definition shapeRun ::
  "nat \<Rightarrow> (nat \<Rightarrow> string) \<Rightarrow> nat \<Rightarrow> RawRun \<Rightarrow> (Run \<times> RawWorker list option) \<times> nat" where
  \<comment> \<open>The run object before reconciliation, with its workers as read (\<open>None\<close> when the
      field is missing). The legacy branch is taken when \<open>cycles\<close> is present and \<open>tasks\<close>
      is not.\<close>
  "shapeRun now nanoid n raw =
     (case raw_cycles raw of
        Some cycles \<Rightarrow>
          if raw_tasks raw = None then
            ((fst (migrateRun now nanoid n cycles raw),
              Some (case raw_workers raw of None \<Rightarrow> [] | Some ws \<Rightarrow> ws)),
             snd (migrateRun now nanoid n cycles raw))
          else ((castRun raw, raw_workers raw), n)
      | None \<Rightarrow> ((castRun raw, raw_workers raw), n))"

definition pausedIfActive :: "RunStatus \<Rightarrow> RunStatus" where
  "pausedIfActive st = (if st \<in> {RunPlanning, RunExecuting, RunJudging} then RunPaused else st)"

definition reconcileWorker :: "nat \<Rightarrow> RawWorker \<Rightarrow> Worker" where
  "reconcileWorker now rw =
     \<lparr> w_id = rw_id rw,
       w_status = (if rw_status rw = WorkerRunning then WorkerFailed else rw_status rw),
       w_taskId = rw_taskId rw, w_logs = rw_logs rw,
       w_activity = (case rw_activity rw of None \<Rightarrow> [] | Some a \<Rightarrow> a),
       w_startedAt = rw_startedAt rw,
       w_completedAt = (if rw_status rw = WorkerRunning then Some now else rw_completedAt rw) \<rparr>"

definition reconcile :: "nat \<Rightarrow> Run \<times> RawWorker list option \<Rightarrow> Run option" where
  \<comment> \<open>The three reconciliation steps. Without a \<open>workers\<close> array the loop over it throws and
      the file is skipped.\<close>
  "reconcile now shaped =
     (case snd shaped of
        None \<Rightarrow> None
      | Some ws \<Rightarrow>
          Some ((fst shaped)\<lparr>r_status := pausedIfActive (r_status (fst shaped)),
                            r_workers := map (reconcileWorker now) ws,
                            r_tasks := map rollbackTask (r_tasks (fst shaped))\<rparr>))"

definition loadRun :: "nat \<Rightarrow> (nat \<Rightarrow> string) \<Rightarrow> nat \<Rightarrow> RawRun \<Rightarrow> Run option \<times> nat" where
  "loadRun now nanoid n raw =
     (reconcile now (fst (shapeRun now nanoid n raw)), snd (shapeRun now nanoid n raw))"

text \<open>
  loadState on a cold start: the map of runs is empty, and the files are read in
  directory order. A file is given by the time at which it is processed and by what
  JSON.parse returns for it, \<open>None\<close> when parsing throws; a file that throws is skipped.
\<close>

fun loadFiles ::
  "(nat \<Rightarrow> string) \<Rightarrow> (nat \<times> RawRun option) list \<Rightarrow> (string \<rightharpoonup> Run) \<times> nat
     \<Rightarrow> (string \<rightharpoonup> Run) \<times> nat" where
  "loadFiles nanoid [] acc = acc"
| "loadFiles nanoid ((now, None) # files) acc = loadFiles nanoid files acc"
| "loadFiles nanoid ((now, Some raw) # files) acc =
     (case fst (loadRun now nanoid (snd acc) raw) of
        None \<Rightarrow> loadFiles nanoid files (fst acc, snd (loadRun now nanoid (snd acc) raw))
      | Some run \<Rightarrow>
          loadFiles nanoid files
            ((fst acc)(r_id run \<mapsto> run), snd (loadRun now nanoid (snd acc) raw)))"

definition loadState :: "(nat \<Rightarrow> string) \<Rightarrow> (nat \<times> RawRun option) list \<Rightarrow> (string \<rightharpoonup> Run)" where
  "loadState nanoid files = fst (loadFiles nanoid files (Map.empty, 0))"

definition reconciledFrom :: "nat \<Rightarrow> Run \<Rightarrow> RawWorker list \<Rightarrow> Run \<Rightarrow> bool" where
  \<comment> \<open>\<open>r\<close> is the run \<open>pre\<close> with workers \<open>ws\<close>, after the three reconciliation steps.\<close>
  "reconciledFrom now pre ws r =
     (r = pre\<lparr>r_status := pausedIfActive (r_status pre),
              r_workers := map (reconcileWorker now) ws,
              r_tasks := map rollbackTask (r_tasks pre)\<rparr>)"

definition savedRun :: RawRun where
  \<comment> \<open>A run saved while executing, with a running worker and a task in progress.\<close>
  "savedRun =
     \<lparr> raw_id = ''r1'', raw_goal = ''goal'', raw_targetDir = ''/tmp'',
       raw_status = RunExecuting, raw_cycles = None,
       raw_tasks = Some [mkTask ''t1'' ''T1'' TaskInProgress 1 [],
                         mkTask ''t2'' ''T2'' TaskCompleted 2 []],
       raw_judgements = Some [], raw_analysis = Some ''plan'',
       raw_workers = Some [\<lparr> rw_id = ''w1'', rw_status = WorkerRunning, rw_taskId = Some ''t1'',
                             rw_logs = [], rw_activity = None, rw_startedAt = 10,
                             rw_completedAt = None \<rparr>],
       raw_maxWorkers = Some 3, raw_createdAt = 0, raw_completedAt = None, raw_error = None \<rparr>"


definition savedFiles :: "(nat \<times> RawRun option) list" where
  \<comment> \<open>The saved run, read at time 500, and a file that does not parse.\<close>
  "savedFiles = [(500, Some savedRun), (501, None)]"

section \<open>Bounds on a worker's logs and activity\<close>

lemma length_slice_last: "length (slice_last n xs) = min n (length xs)"
  by (simp add: slice_last_def)

lemma saveRun_truncates:
  "list_all (\<lambda>w. length (w_logs w) \<le> 100 \<and> length (w_activity w) \<le> 100)
     (r_workers (saveRun run))"
  by (simp add: saveRun_def list_all_iff length_slice_last)

lemma addLog_logs_length:
  "length (w_logs (fst (addLog now level message wb))) = min 500 (Suc (length (w_logs (fst wb))))"
  by (simp add: addLog_def Let_def length_slice_last)

lemma addLog_activity: "w_activity (fst (addLog now level message wb)) = w_activity (fst wb)"
  by (simp add: addLog_def Let_def)

lemma addActivity_logs_length:
  "length (w_logs (fst (addActivity now ty summary wb))) = min 500 (Suc (length (w_logs (fst wb))))"
  by (simp add: addActivity_def Let_def addLog_logs_length)

lemma addActivity_activity_length:
  "length (w_activity (fst (addActivity now ty summary wb)))
     = min 200 (Suc (length (w_activity (fst wb))))"
  by (simp add: addActivity_def Let_def addLog_activity length_slice_last)

lemma applyOp_bounds:
  assumes "length (w_logs (fst wb)) \<le> 500" and "length (w_activity (fst wb)) \<le> 200"
  shows "length (w_logs (fst (applyOp op wb))) \<le> 500
         \<and> length (w_activity (fst (applyOp op wb))) \<le> 200"
proof (cases op)
  case (Pair now wop)
  show ?thesis
  proof (cases wop)
    case (OpLog level message)
    with Pair assms show ?thesis
      by (simp add: addLog_logs_length addLog_activity)
  next
    case (OpActivity ty summary)
    with Pair show ?thesis
      by (simp add: addActivity_logs_length addActivity_activity_length)
  qed
qed

lemma runOps_bounds:
  "length (w_logs (fst wb)) \<le> 500 \<Longrightarrow> length (w_activity (fst wb)) \<le> 200 \<Longrightarrow>
   length (w_logs (fst (runOps ops wb))) \<le> 500
   \<and> length (w_activity (fst (runOps ops wb))) \<le> 200"
proof (induction ops arbitrary: wb)
  case Nil
  then show ?case by simp
next
  case (Cons op ops)
  from applyOp_bounds [OF Cons.prems, of op] Cons.IH [of "applyOp op wb"]
  show ?case by simp
qed

lemma spawnWorker_logs: "length (w_logs (fst (spawnWorker now wid modelId task evs))) = 1"
  by (simp add: spawnWorker_def addLog_logs_length newWorker_def)

lemma spawnWorker_activity: "w_activity (fst (spawnWorker now wid modelId task evs)) = []"
  by (simp add: spawnWorker_def addLog_activity newWorker_def)

lemma settleWorker_logs_length:
  "length (w_logs (fst (settleWorker now outcome wb))) = min 500 (Suc (length (w_logs (fst wb))))"
  by (cases outcome) (simp_all add: settleWorker_def addLog_logs_length)

lemma settleWorker_activity:
  "w_activity (fst (settleWorker now outcome wb)) = w_activity (fst wb)"
  by (cases outcome) (simp_all add: settleWorker_def addLog_activity)

text \<open>
  C9. From the record that spawnWorker builds, after any sequence of addLog and addActivity
  calls, and again after the worker has settled, the worker holds at most 500 log entries
  and at most 200 activity entries. Every append keeps the most recent entries: the array
  after the call is the last 500 (200) entries of the array with the new entry pushed.
\<close>

theorem worker_logs_activity_bounded:
  "length (w_logs (fst (runOps ops (spawnWorker now wid modelId task evs)))) \<le> 500
   \<and> length (w_activity (fst (runOps ops (spawnWorker now wid modelId task evs)))) \<le> 200
   \<and> length (w_logs (fst (settleWorker now' outcome
          (runOps ops (spawnWorker now wid modelId task evs))))) \<le> 500
   \<and> length (w_activity (fst (settleWorker now' outcome
          (runOps ops (spawnWorker now wid modelId task evs))))) \<le> 200
   \<and> w_logs (fst (addLog t level message wb))
       = slice_last 500 (w_logs (fst wb) @
           [\<lparr> l_timestamp = t, l_level = level,
              l_source = ''worker-'' @ take 6 (w_id (fst wb)), l_message = message \<rparr>])
   \<and> w_activity (fst (addActivity t ty summary wb))
       = slice_last 200 (w_activity (fst wb) @
           [\<lparr> a_type = ty, a_summary = summary, a_timestamp = t \<rparr>])"
proof -
  let ?wb = "runOps ops (spawnWorker now wid modelId task evs)"
  have b: "length (w_logs (fst ?wb)) \<le> 500 \<and> length (w_activity (fst ?wb)) \<le> 200"
    by (rule runOps_bounds) (simp_all add: spawnWorker_logs spawnWorker_activity)
  have s1: "length (w_logs (fst (settleWorker now' outcome ?wb))) \<le> 500"
    by (simp add: settleWorker_logs_length)
  have s2: "length (w_activity (fst (settleWorker now' outcome ?wb))) \<le> 200"
    using b by (simp add: settleWorker_activity)
  have l: "w_logs (fst (addLog t level message wb))
       = slice_last 500 (w_logs (fst wb) @
           [\<lparr> l_timestamp = t, l_level = level,
              l_source = ''worker-'' @ take 6 (w_id (fst wb)), l_message = message \<rparr>])"
    by (simp add: addLog_def Let_def slice_last_def)
  have a: "w_activity (fst (addActivity t ty summary wb))
       = slice_last 200 (w_activity (fst wb) @
           [\<lparr> a_type = ty, a_summary = summary, a_timestamp = t \<rparr>])"
    by (simp add: addActivity_def Let_def addLog_activity slice_last_def)
  from b s1 s2 l a show ?thesis by blast
qed

section \<open>Properties of createRun\<close>

lemma createRun_maxWorkers:
  "r_maxWorkers (createRun now newId goal targetDir mw) =
     Some (case mw of None \<Rightarrow> 3 | Some n \<Rightarrow> if n = 0 then 3 else min n 10)"
  by (simp add: createRun_def or_default_def MAX_CONCURRENT_WORKERS_def split: option.split)

text \<open>
  C5. A requested maxWorkers of -5 is stored as -5: createRun bounds the value from above
  only, so the stored value is below 1.
\<close>

theorem createRun_negative_maxWorkers:
  "r_maxWorkers (createRun now newId goal targetDir (Some (- 5))) = Some (- 5)"
  by (simp add: createRun_def or_default_def MAX_CONCURRENT_WORKERS_def)

section \<open>Properties of stopRun and pauseRun\<close>

lemma killWorker_runs: "runs (killWorker w m) = runs m"
  by (simp add: killWorker_def)

lemma killWorkers_runs: "runs (killWorkers ws m) = runs m"
  unfolding killWorkers_def by (induction ws arbitrary: m) (simp_all add: killWorker_runs)

lemma abortRun_runs: "runs (abortRun runId m) = runs m"
  by (simp add: abortRun_def split: option.split)

lemma stopRun_total:
  "runs m runId = Some run \<Longrightarrow>
   runOf runId (stopRun now runId m) =
     Some (run\<lparr>r_workers := map (failRunningWorker now) (r_workers run),
               r_tasks := map rollbackTask (r_tasks run),
               r_status := RunStopped, r_completedAt := Some now\<rparr>)"
  by (simp add: runOf_def stopRun_def stopRun_begin_def stopRun_finish_def
      killWorkers_runs abortRun_runs)

lemma pauseRun_total:
  "runs m runId = Some run \<Longrightarrow> r_status run \<in> {RunPlanning, RunExecuting, RunJudging} \<Longrightarrow>
   runOf runId (pauseRun runId m) =
     Some (run\<lparr>r_status := RunPaused, r_tasks := map rollbackTask (r_tasks run)\<rparr>)"
  by (auto simp add: runOf_def pauseRun_def pauseRun_begin_def pauseRun_finish_def
      killWorkers_runs abortRun_runs)

lemma pauseRun_guard:
  "runs m runId = Some run \<Longrightarrow> r_status run \<notin> {RunPlanning, RunExecuting, RunJudging} \<Longrightarrow>
   pauseRun runId m = Inl (CannotPause runId (r_status run))"
  by (auto simp add: pauseRun_def pauseRun_begin_def)

text \<open>
  C4. stopRun has no guard on the run's status. On a run that is already stopped (stopped at
  time 100) a second call at time 200 succeeds and rewrites \<open>completedAt\<close> to 200; on a
  completed run the call succeeds and turns the run into a stopped one. pauseRun, on the
  same stopped run, fails with its precondition error.
\<close>

theorem stopRun_has_no_status_guard:
  "map_option r_completedAt (runOf ''r1'' (stopRun 200 ''r1'' stoppedRun)) = Some (Some 200)
   \<and> map_option r_completedAt (runs stoppedRun ''r1'') = Some (Some 100)
   \<and> map_option r_status (runOf ''r1'' (stopRun 200 ''r1'' completedRun)) = Some RunStopped
   \<and> map_option r_completedAt (runOf ''r1'' (stopRun 200 ''r1'' completedRun)) = Some (Some 200)
   \<and> pauseRun ''r1'' stoppedRun = Inl (CannotPause ''r1'' RunStopped)"
proof -
  have s: "runs stoppedRun ''r1'' = Some (mkRun ''r1'' RunStopped [] [] 3 (Some 100))"
    by (simp add: stoppedRun_def mkManager_def mkRun_def)
  have c: "runs completedRun ''r1''
      = Some (mkRun ''r1'' RunCompleted [mkTask ''t1'' ''T1'' TaskCompleted 1 []] [] 3 (Some 100))"
    by (simp add: completedRun_def mkManager_def mkRun_def)
  have 1: "map_option r_completedAt (runOf ''r1'' (stopRun 200 ''r1'' stoppedRun)) = Some (Some 200)"
    by (simp add: stopRun_total [OF s])
  have 2: "map_option r_completedAt (runs stoppedRun ''r1'') = Some (Some 100)"
    by (simp add: s mkRun_def)
  have 3: "map_option r_status (runOf ''r1'' (stopRun 200 ''r1'' completedRun)) = Some RunStopped"
    by (simp add: stopRun_total [OF c])
  have 4: "map_option r_completedAt (runOf ''r1'' (stopRun 200 ''r1'' completedRun)) = Some (Some 200)"
    by (simp add: stopRun_total [OF c])
  have 5: "pauseRun ''r1'' stoppedRun = Inl (CannotPause ''r1'' RunStopped)"
    using pauseRun_guard [OF s] by (simp add: mkRun_def)
  from 1 2 3 4 5 show ?thesis by blast
qed

lemma settleTask_terminal: "t_status (settleTask now outcome task) \<in> {TaskCompleted, TaskFailed}"
  by (cases outcome) (simp_all add: settleTask_def)

lemma workerSettles_task_terminal:
  assumes "runs m runId = Some run" and "ti < length (r_tasks run)"
    and "wi < length (r_workers run)"
  shows "\<exists>run'. runs (workerSettles now runId ti wi outcome m) runId = Some run'
           \<and> t_status (r_tasks run' ! ti) \<in> {TaskCompleted, TaskFailed}"
  using assms settleTask_terminal [of now outcome "r_tasks run ! ti"]
  by (simp add: workerSettles_def Let_def)

lemma pauseRun_finish_keeps_terminal:
  assumes "runs m runId = Some run" and "ti < length (r_tasks run)"
    and "t_status (r_tasks run ! ti) \<in> {TaskCompleted, TaskFailed}"
  shows "\<exists>run'. runs (pauseRun_finish runId m) runId = Some run'
           \<and> t_status (r_tasks run' ! ti) = t_status (r_tasks run ! ti)"
  using assms by (auto simp add: pauseRun_finish_def rollbackTask_def)

text \<open>
  C6. On the run with task t1 in progress, pauseRun rolls the task back to pending and
  aborts the worker w1. The aborted worker's promise then settles with the error Aborted,
  and its continuation writes the status failed into the same task: after it has run the
  task is failed, not pending. The same happens when the continuation runs inside
  pauseRun's await (the rollback then finds no task in progress and leaves it failed, with
  \<open>startedAt\<close> still set), and after stopRun. In general the continuation leaves the task
  completed or failed, whatever its status was, and the rollback does not touch such a
  task.
\<close>

theorem pause_rollback_overwritten_by_worker:
  "taskStates ''r1'' (pauseRun ''r1'' busyRun) = [(TaskPending, None, None)]
   \<and> (case pauseRun ''r1'' busyRun of Inl e \<Rightarrow> [] | Inr m \<Rightarrow> abortedWorkers m) = [''w1'']
   \<and> taskStates ''r1'' (map_sum (\<lambda>e. e) (workerSettles 30 ''r1'' 0 0 (Inl ''Aborted''))
        (pauseRun ''r1'' busyRun)) = [(TaskFailed, None, Some ''Aborted'')]
   \<and> taskStates ''r1'' (map_sum (\<lambda>e. e)
        (\<lambda>m. pauseRun_finish ''r1'' (workerSettles 30 ''r1'' 0 0 (Inl ''Aborted'') m))
        (pauseRun_begin ''r1'' busyRun)) = [(TaskFailed, Some 10, Some ''Aborted'')]
   \<and> taskStates ''r1'' (map_sum (\<lambda>e. e) (workerSettles 30 ''r1'' 0 0 (Inl ''Aborted''))
        (stopRun 20 ''r1'' busyRun)) = [(TaskFailed, None, Some ''Aborted'')]"
proof -
  note defs = taskStates_def runOf_def pauseRun_def pauseRun_begin_def pauseRun_finish_def
    stopRun_def stopRun_begin_def stopRun_finish_def workerSettles_def settleTask_def
    busyRun_def mkManager_def mkRun_def mkTask_def mkWorker_def rollbackTask_def Let_def
    killWorkers_runs abortRun_runs
  have 1: "taskStates ''r1'' (pauseRun ''r1'' busyRun) = [(TaskPending, None, None)]"
    by (simp add: defs)
  have 2: "(case pauseRun ''r1'' busyRun of Inl e \<Rightarrow> [] | Inr m \<Rightarrow> abortedWorkers m) = [''w1'']"
    by (simp add: pauseRun_def pauseRun_begin_def pauseRun_finish_def busyRun_def mkManager_def
        mkRun_def mkTask_def mkWorker_def killWorkers_def killWorker_def getRunningWorkerIds_def
        abortRun_def)
  have 3: "taskStates ''r1'' (map_sum (\<lambda>e. e) (workerSettles 30 ''r1'' 0 0 (Inl ''Aborted''))
        (pauseRun ''r1'' busyRun)) = [(TaskFailed, None, Some ''Aborted'')]"
    by (simp add: defs)
  have 4: "taskStates ''r1'' (map_sum (\<lambda>e. e)
        (\<lambda>m. pauseRun_finish ''r1'' (workerSettles 30 ''r1'' 0 0 (Inl ''Aborted'') m))
        (pauseRun_begin ''r1'' busyRun)) = [(TaskFailed, Some 10, Some ''Aborted'')]"
    by (simp add: defs)
  have 5: "taskStates ''r1'' (map_sum (\<lambda>e. e) (workerSettles 30 ''r1'' 0 0 (Inl ''Aborted''))
        (stopRun 20 ''r1'' busyRun)) = [(TaskFailed, None, Some ''Aborted'')]"
    by (simp add: defs)
  from 1 2 3 4 5 show ?thesis by blast
qed

section \<open>The spawn loop\<close>


lemma markStarted_idem: "markStarted now (markStarted now t) = markStarted now t"
  by (simp add: markStarted_def)

lemma markStarted_id: "t_id (markStarted now t) = t_id t"
  by (simp add: markStarted_def)

lemma length_markAll: "length (markAll now js ts) = length ts"
  unfolding markAll_def by (induction js arbitrary: ts) simp_all

lemma markAll_Cons: "markAll now (j # js) ts = markAll now js (ts[j := markStarted now (ts ! j)])"
  by (simp add: markAll_def)

lemma markAll_Nil: "markAll now [] ts = ts"
  by (simp add: markAll_def)

lemma nth_markAll:
  "j < length ts \<Longrightarrow>
   markAll now js ts ! j = (if j \<in> set js then markStarted now (ts ! j) else ts ! j)"
proof (induction js arbitrary: ts)
  case Nil
  then show ?case by (simp add: markAll_Nil)
next
  case (Cons i js)
  have len: "j < length (ts[i := markStarted now (ts ! i)])" using Cons.prems by simp
  show ?case
    using Cons.IH [OF len] Cons.prems
    by (cases "i = j") (auto simp add: markAll_Cons markStarted_idem)
qed

lemma startTask_tasks:
  "r_tasks (s_run (startTask now nanoid modelId i s))
     = (r_tasks (s_run s))[i := markStarted now (r_tasks (s_run s) ! i)]"
  by (simp add: startTask_def Let_def)

lemma startTask_aborted: "s_aborted (startTask now nanoid modelId i s) = s_aborted s"
  by (simp add: startTask_def Let_def)

lemma startTask_maxWorkers:
  "r_maxWorkers (s_run (startTask now nanoid modelId i s)) = r_maxWorkers (s_run s)"
  by (simp add: startTask_def Let_def)

lemma startTask_running:
  "s_runningTasks (startTask now nanoid modelId i s) =
     (if t_id (r_tasks (s_run s) ! i) \<in> set (s_runningTasks s) then s_runningTasks s
      else s_runningTasks s @ [t_id (r_tasks (s_run s) ! i)])"
  by (simp add: startTask_def Let_def markStarted_id)

lemma spawnLoop_prefix:
  "\<exists>k\<le>length js. r_tasks (s_run (spawnLoop now nanoid modelId js s))
      = markAll now (take k js) (r_tasks (s_run s))"
proof (induction js arbitrary: s)
  case Nil
  then show ?case by (simp add: markAll_Nil)
next
  case (Cons i js)
  show ?case
  proof (cases "slotsFull s \<or> s_aborted s")
    case True
    then have "r_tasks (s_run (spawnLoop now nanoid modelId (i # js) s))
        = markAll now (take 0 (i # js)) (r_tasks (s_run s))"
      by (auto simp add: markAll_Nil)
    then show ?thesis by blast
  next
    case False
    from Cons.IH [of "startTask now nanoid modelId i s"]
    obtain k where k: "k \<le> length js"
      "r_tasks (s_run (spawnLoop now nanoid modelId js (startTask now nanoid modelId i s)))
        = markAll now (take k js) (r_tasks (s_run (startTask now nanoid modelId i s)))"
      by blast
    have "r_tasks (s_run (spawnLoop now nanoid modelId (i # js) s))
        = markAll now (take (Suc k) (i # js)) (r_tasks (s_run s))"
      using False k(2) by (simp add: markAll_Cons startTask_tasks)
    moreover have "Suc k \<le> length (i # js)" using k(1) by simp
    ultimately show ?thesis by blast
  qed
qed

lemma spawnLoop_exact:
  assumes "\<not> s_aborted s" "r_maxWorkers (s_run s) = Some mw"
    and "distinct (map (\<lambda>i. t_id (r_tasks (s_run s) ! i)) js)"
    and "\<forall>i\<in>set js. i < length (r_tasks (s_run s)) \<and> t_id (r_tasks (s_run s) ! i) \<notin> set (s_runningTasks s)"
  shows "r_tasks (s_run (spawnLoop now nanoid modelId js s))
      = markAll now (take (nat (mw - int (length (s_runningTasks s)))) js) (r_tasks (s_run s))"
  using assms
proof (induction js arbitrary: s)
  case Nil
  then show ?case by (simp add: markAll_Nil)
next
  case (Cons i js)
  let ?s' = "startTask now nanoid modelId i s"
  let ?ts = "r_tasks (s_run s)"
  show ?case
  proof (cases "slotsFull s")
    case True
    then have "nat (mw - int (length (s_runningTasks s))) = 0"
      using Cons.prems(2) by (simp add: slotsFull_def)
    with True show ?thesis by (simp add: markAll_Nil)
  next
    case False
    then have pos: "int (length (s_runningTasks s)) < mw"
      using Cons.prems(2) by (simp add: slotsFull_def)
    have i: "i < length ?ts" "t_id (?ts ! i) \<notin> set (s_runningTasks s)"
      using Cons.prems(4) by simp_all
    have distinct_js: "distinct (map (\<lambda>j. t_id (?ts ! j)) js)"
      and i_notin: "t_id (?ts ! i) \<notin> (\<lambda>j. t_id (?ts ! j)) ` set js"
      using Cons.prems(3) by simp_all
    have ids: "\<And>j. j < length ?ts \<Longrightarrow> t_id (r_tasks (s_run ?s') ! j) = t_id (?ts ! j)"
    proof -
      fix j assume "j < length ?ts"
      then show "t_id (r_tasks (s_run ?s') ! j) = t_id (?ts ! j)"
        by (cases "i = j") (simp_all add: startTask_tasks markStarted_id)
    qed
    have run': "s_runningTasks ?s' = s_runningTasks s @ [t_id (?ts ! i)]"
      using i(2) by (simp add: startTask_running)
    have a1: "\<not> s_aborted ?s'" using Cons.prems(1) by (simp add: startTask_aborted)
    have a2: "r_maxWorkers (s_run ?s') = Some mw" using Cons.prems(2) by (simp add: startTask_maxWorkers)
    have a3: "distinct (map (\<lambda>j. t_id (r_tasks (s_run ?s') ! j)) js)"
    proof -
      have eq: "map (\<lambda>j. t_id (r_tasks (s_run ?s') ! j)) js = map (\<lambda>j. t_id (?ts ! j)) js"
        unfolding map_eq_conv using Cons.prems(4) ids by simp
      show ?thesis unfolding eq by (rule distinct_js)
    qed
    have a4: "\<forall>j\<in>set js. j < length (r_tasks (s_run ?s'))
          \<and> t_id (r_tasks (s_run ?s') ! j) \<notin> set (s_runningTasks ?s')"
    proof
      fix j assume j: "j \<in> set js"
      then have jl: "j < length ?ts" and jr: "t_id (?ts ! j) \<notin> set (s_runningTasks s)"
        using Cons.prems(4) by simp_all
      have "t_id (?ts ! j) \<noteq> t_id (?ts ! i)" using i_notin j by (metis imageI)
      moreover have "length (r_tasks (s_run ?s')) = length ?ts"
        by (simp add: startTask_tasks)
      ultimately show "j < length (r_tasks (s_run ?s'))
          \<and> t_id (r_tasks (s_run ?s') ! j) \<notin> set (s_runningTasks ?s')"
        using jl jr ids [OF jl] by (simp add: run')
    qed
    have "r_tasks (s_run (spawnLoop now nanoid modelId js ?s'))
        = markAll now (take (nat (mw - int (length (s_runningTasks ?s')))) js) (r_tasks (s_run ?s'))"
      by (rule Cons.IH [OF a1 a2 a3 a4])
    moreover have "nat (mw - int (length (s_runningTasks s)))
        = Suc (nat (mw - int (length (s_runningTasks ?s'))))"
      using pos by (simp add: run')
    ultimately show ?thesis
      using False Cons.prems(1) by (simp add: markAll_Cons startTask_tasks)
  qed
qed


lemma ready_index:
  "i \<in> set (getReadyTasks r) \<Longrightarrow>
   i < length (r_tasks r) \<and> t_status (r_tasks r ! i) = TaskPending
   \<and> list_all (depCompleted (r_tasks r)) (t_dependencies (r_tasks r ! i))"
  by (auto simp add: getReadyTasks_def isReady_def split: if_splits)

lemma distinct_getReadyTasks: "distinct (getReadyTasks r)"
  by (simp add: getReadyTasks_def)

lemma spawnPhase_marks:
  "\<exists>k. r_tasks (s_run (spawnPhase now nanoid modelId s))
      = markAll now (take k (getReadyTasks (s_run s))) (r_tasks (s_run s))"
proof (cases "s_aborted s \<or> r_status (s_run s) = RunCompleted")
  case True
  then have "r_tasks (s_run (spawnPhase now nanoid modelId s))
      = markAll now (take 0 (getReadyTasks (s_run s))) (r_tasks (s_run s))"
    by (auto simp add: spawnPhase_def markAll_Nil)
  then show ?thesis by blast
next
  case False
  then show ?thesis
    using spawnLoop_prefix [of "getReadyTasks (s_run s)" now nanoid modelId s]
    by (auto simp add: spawnPhase_def)
qed

lemma depCompleted_markAll:
  assumes "depCompleted ts d"
    and "\<forall>j\<in>set js. j < length ts \<longrightarrow> t_status (ts ! j) = TaskPending"
  shows "depCompleted (markAll now js ts) d"
proof -
  from assms(1) obtain dep where dep: "find (\<lambda>t. t_id t = d) ts = Some dep"
    "t_status dep = TaskCompleted"
    by (auto simp add: depCompleted_def split: option.splits)
  from dep(1) obtain k where k: "k < length ts" "t_id (ts ! k) = d" "dep = ts ! k"
    "\<forall>j<k. t_id (ts ! j) \<noteq> d"
    by (auto simp add: find_Some_iff)
  have "k \<notin> set js" using assms(2) k(1,3) dep(2) by auto
  then have same: "markAll now js ts ! k = ts ! k" using k(1) by (simp add: nth_markAll)
  have before: "\<forall>j<k. t_id (markAll now js ts ! j) \<noteq> d"
    using k(1,4) by (simp add: nth_markAll markStarted_id)
  have "find (\<lambda>t. t_id t = d) (markAll now js ts) = Some dep"
    unfolding find_Some_iff using k same before by (auto simp add: length_markAll)
  then show ?thesis using dep(2) by (simp add: depCompleted_def)
qed

lemma in_progress_only_from_in_progress:
  "t_status (rollbackTask t) \<noteq> TaskInProgress"
  "t_status (settleTask now outcome t) \<noteq> TaskInProgress"
  "t_status (cancelIfPending t) = TaskInProgress \<Longrightarrow> t_status t = TaskInProgress"
  "t_status (makeFollowUp toLowerCase now taskId judgementId tasks nt) \<noteq> TaskInProgress"
  using settleTask_terminal [of now outcome t]
  by (auto simp add: rollbackTask_def cancelIfPending_def makeFollowUp_def split: if_splits)

text \<open>
  C8. The spawn loop is the only code that assigns the status in_progress (the rollback,
  the worker's continuation, the cancellation after goalComplete and the creation of
  follow-up tasks never produce it). Whenever one pass of the loop moves a task to
  in_progress, every dependency id of that task resolves (first task with that id) to a
  completed task, in the state before the pass and in the state after it.
\<close>

theorem spawn_only_with_completed_dependencies:
  assumes "i < length (r_tasks (s_run s))"
    and "t_status (r_tasks (s_run (spawnPhase now nanoid modelId s)) ! i) = TaskInProgress"
    and "t_status (r_tasks (s_run s) ! i) \<noteq> TaskInProgress"
    and "d \<in> set (t_dependencies (r_tasks (s_run s) ! i))"
  shows "depCompleted (r_tasks (s_run s)) d
         \<and> depCompleted (r_tasks (s_run (spawnPhase now nanoid modelId s))) d"
proof -
  let ?ts = "r_tasks (s_run s)"
  from spawnPhase_marks [of now nanoid modelId s] obtain k where
    k: "r_tasks (s_run (spawnPhase now nanoid modelId s))
         = markAll now (take k (getReadyTasks (s_run s))) ?ts"
    by blast
  have pend: "\<forall>j\<in>set (take k (getReadyTasks (s_run s))). j < length ?ts \<longrightarrow> t_status (?ts ! j) = TaskPending"
    using ready_index by (auto dest: in_set_takeD)
  have "i \<in> set (take k (getReadyTasks (s_run s)))"
  proof (rule ccontr)
    assume "i \<notin> set (take k (getReadyTasks (s_run s)))"
    then have "markAll now (take k (getReadyTasks (s_run s))) ?ts ! i = ?ts ! i"
      using assms(1) by (simp add: nth_markAll)
    with assms(2,3) k show False by simp
  qed
  then have "i \<in> set (getReadyTasks (s_run s))" by (rule in_set_takeD)
  then have "list_all (depCompleted ?ts) (t_dependencies (?ts ! i))"
    using ready_index by blast
  with assms(4) have 1: "depCompleted ?ts d" by (simp add: list_all_iff)
  from depCompleted_markAll [OF 1 pend] k show ?thesis using 1 by simp
qed

lemma nth_in_take:
  "distinct xs \<Longrightarrow> p < length xs \<Longrightarrow> (xs ! p \<in> set (take k xs)) = (p < k)"
  by (auto simp add: in_set_conv_nth nth_eq_iff_index_eq)

lemma distinct_ids_on:
  assumes "distinct (map t_id ts)" "distinct js" "\<forall>j\<in>set js. j < length ts"
  shows "distinct (map (\<lambda>i. t_id (ts ! i)) js)"
proof -
  have "inj_on (\<lambda>i. t_id (ts ! i)) (set js)"
  proof (rule inj_onI)
    fix x y assume xy: "x \<in> set js" "y \<in> set js" "t_id (ts ! x) = t_id (ts ! y)"
    then have "x < length ts" "y < length ts" using assms(3) by auto
    then have "map t_id ts ! x = map t_id ts ! y" using xy(3) by simp
    then show "x = y"
      using assms(1) \<open>x < length ts\<close> \<open>y < length ts\<close>
      by (simp add: nth_eq_iff_index_eq del: nth_map)
  qed
  then show ?thesis using assms(2) by (simp add: distinct_map)
qed

text \<open>
  C1 (as amended). Ready tasks are started in their order in \<open>run.tasks\<close>, the order of
  creation; the priority field is not consulted. With \<open>k\<close> free worker slots, a pass of
  the spawn loop marks exactly the first \<open>k\<close> ready tasks of the array as in_progress, and
  every later ready task stays pending.
\<close>

theorem spawn_in_array_order:
  assumes "\<not> s_aborted s" and "r_status (s_run s) \<noteq> RunCompleted"
    and "r_maxWorkers (s_run s) = Some mw"
    and "distinct (map t_id (r_tasks (s_run s)))"
    and "\<forall>i\<in>set (getReadyTasks (s_run s)).
           t_id (r_tasks (s_run s) ! i) \<notin> set (s_runningTasks s)"
    and "k = nat (mw - int (length (s_runningTasks s)))"
  shows "r_tasks (s_run (spawnPhase now nanoid modelId s))
           = markAll now (take k (getReadyTasks (s_run s))) (r_tasks (s_run s))
         \<and> (\<forall>p<length (getReadyTasks (s_run s)).
               t_status (r_tasks (s_run (spawnPhase now nanoid modelId s))
                           ! (getReadyTasks (s_run s) ! p))
                 = (if p < k then TaskInProgress else TaskPending))"
proof -
  let ?ts = "r_tasks (s_run s)"
  let ?ready = "getReadyTasks (s_run s)"
  have inr: "\<forall>j\<in>set ?ready. j < length ?ts" using ready_index by blast
  have d: "distinct (map (\<lambda>i. t_id (?ts ! i)) ?ready)"
    by (rule distinct_ids_on [OF assms(4) distinct_getReadyTasks inr])
  have h: "\<forall>i\<in>set ?ready. i < length ?ts \<and> t_id (?ts ! i) \<notin> set (s_runningTasks s)"
    using inr assms(5) by blast
  have eq: "r_tasks (s_run (spawnPhase now nanoid modelId s)) = markAll now (take k ?ready) ?ts"
    using spawnLoop_exact [OF assms(1) assms(3) d h] assms(1,2,6)
    by (simp add: spawnPhase_def)
  have "\<forall>p<length ?ready. t_status (markAll now (take k ?ready) ?ts ! (?ready ! p))
                 = (if p < k then TaskInProgress else TaskPending)"
  proof (intro allI impI)
    fix p assume p: "p < length ?ready"
    then have m: "?ready ! p \<in> set ?ready" by simp
    then have l: "?ready ! p < length ?ts" and pe: "t_status (?ts ! (?ready ! p)) = TaskPending"
      using ready_index by blast+
    show "t_status (markAll now (take k ?ready) ?ts ! (?ready ! p))
                 = (if p < k then TaskInProgress else TaskPending)"
      using l pe nth_in_take [OF distinct_getReadyTasks p, of k]
      by (simp add: nth_markAll markStarted_def)
  qed
  with eq show ?thesis by simp
qed


lemma ready_prioRun: "getReadyTasks (s_run prioRun) = [0, 1]"
  by (simp add: getReadyTasks_def prioRun_def mkSched_def mkRun_def mkTask_def isReady_def upt_rec)

lemma statuses_prioRun:
  "map t_status (r_tasks (s_run (spawnPhase 50 idOf ''m'' prioRun))) = [TaskInProgress, TaskPending]"
  by (simp add: spawnPhase_def ready_prioRun slotsFull_def startTask_def Let_def markStarted_def)
     (simp add: prioRun_def mkSched_def mkRun_def mkTask_def)

text \<open>
  Selection by priority fails on the run with tasks A (priority 5) and B (priority 1),
  both ready, and one free slot: A, the earlier task with the larger priority value, is
  started and B is left pending.
\<close>

theorem priority_order_counterexample:
  "getReadyTasks (s_run prioRun) = [0, 1]
   \<and> map t_priority (r_tasks (s_run prioRun)) = [5, 1]
   \<and> r_maxWorkers (s_run prioRun) = Some 1 \<and> s_runningTasks prioRun = []
   \<and> map t_status (r_tasks (s_run (spawnPhase 50 idOf ''m'' prioRun)))
       = [TaskInProgress, TaskPending]"
proof -
  have "map t_priority (r_tasks (s_run prioRun)) = [5, 1]"
    "r_maxWorkers (s_run prioRun) = Some 1" "s_runningTasks prioRun = []"
    by (simp_all add: prioRun_def mkSched_def mkRun_def mkTask_def)
  with ready_prioRun statuses_prioRun show ?thesis by blast
qed

theorem spawn_in_array_order_witness:
  "\<not> s_aborted prioRun \<and> r_status (s_run prioRun) \<noteq> RunCompleted
   \<and> r_maxWorkers (s_run prioRun) = Some 1
   \<and> distinct (map t_id (r_tasks (s_run prioRun)))
   \<and> s_runningTasks prioRun = []
   \<and> getReadyTasks (s_run prioRun) = [0, 1]
   \<and> r_tasks (s_run (spawnPhase 50 idOf ''m'' prioRun))
       = markAll 50 [0] (r_tasks (s_run prioRun))
   \<and> t_status (r_tasks (s_run (spawnPhase 50 idOf ''m'' prioRun)) ! 0) = TaskInProgress
   \<and> t_status (r_tasks (s_run (spawnPhase 50 idOf ''m'' prioRun)) ! 1) = TaskPending"
proof -
  have h1: "\<not> s_aborted prioRun" and h2: "r_status (s_run prioRun) \<noteq> RunCompleted"
    and h3: "r_maxWorkers (s_run prioRun) = Some 1"
    and h4: "distinct (map t_id (r_tasks (s_run prioRun)))"
    and r: "s_runningTasks prioRun = []"
    by (simp_all add: prioRun_def mkSched_def mkRun_def mkTask_def)
  have h5: "\<forall>i\<in>set (getReadyTasks (s_run prioRun)).
      t_id (r_tasks (s_run prioRun) ! i) \<notin> set (s_runningTasks prioRun)"
    by (simp add: r)
  have h6: "(1::nat) = nat (1 - int (length (s_runningTasks prioRun)))"
    by (simp add: r)
  note t = spawn_in_array_order [OF h1 h2 h3 h4 h5 h6, of 50 idOf "''m''"]
  from t have a: "r_tasks (s_run (spawnPhase 50 idOf ''m'' prioRun))
       = markAll 50 [0] (r_tasks (s_run prioRun))"
    by (simp add: ready_prioRun)
  note t2 = t [THEN conjunct2, rule_format]
  have b: "t_status (r_tasks (s_run (spawnPhase 50 idOf ''m'' prioRun)) ! 0) = TaskInProgress"
    using t2 [of 0] by (simp add: ready_prioRun)
  have c: "t_status (r_tasks (s_run (spawnPhase 50 idOf ''m'' prioRun)) ! 1) = TaskPending"
    using t2 [of 1] by (simp add: ready_prioRun)
  from h1 h2 h3 h4 r ready_prioRun a b c show ?thesis by blast
qed

lemma ready_depRun: "getReadyTasks (s_run depRun) = [1]"
  by (simp add: getReadyTasks_def depRun_def mkSched_def mkRun_def mkTask_def isReady_def
      depCompleted_def upt_rec)

lemma statuses_depRun:
  "map t_status (r_tasks (s_run (spawnPhase 50 idOf ''m'' depRun)))
     = [TaskCompleted, TaskInProgress, TaskPending]"
  by (simp add: spawnPhase_def ready_depRun slotsFull_def startTask_def Let_def markStarted_def)
     (simp add: depRun_def mkSched_def mkRun_def mkTask_def)

theorem spawn_only_with_completed_dependencies_witness:
  "(1::nat) < length (r_tasks (s_run depRun))
   \<and> t_status (r_tasks (s_run (spawnPhase 50 idOf ''m'' depRun)) ! 1) = TaskInProgress
   \<and> t_status (r_tasks (s_run depRun) ! 1) = TaskPending
   \<and> t_dependencies (r_tasks (s_run depRun) ! 1) = [''t1'']
   \<and> depCompleted (r_tasks (s_run depRun)) ''t1''
   \<and> depCompleted (r_tasks (s_run (spawnPhase 50 idOf ''m'' depRun))) ''t1''
   \<and> t_status (r_tasks (s_run (spawnPhase 50 idOf ''m'' depRun)) ! 2) = TaskPending"
proof -
  have h1: "(1::nat) < length (r_tasks (s_run depRun))"
    and p: "t_status (r_tasks (s_run depRun) ! 1) = TaskPending"
    and d: "t_dependencies (r_tasks (s_run depRun) ! 1) = [''t1'']"
    by (simp_all add: depRun_def mkSched_def mkRun_def mkTask_def)
  have l: "length (r_tasks (s_run (spawnPhase 50 idOf ''m'' depRun))) = 3"
    using arg_cong [OF statuses_depRun, of length] by simp
  have h2: "t_status (r_tasks (s_run (spawnPhase 50 idOf ''m'' depRun)) ! 1) = TaskInProgress"
    using arg_cong [OF statuses_depRun, of "\<lambda>xs. xs ! 1"] l by simp
  have q: "t_status (r_tasks (s_run (spawnPhase 50 idOf ''m'' depRun)) ! 2) = TaskPending"
    using arg_cong [OF statuses_depRun, of "\<lambda>xs. xs ! 2"] l by simp
  have h3: "t_status (r_tasks (s_run depRun) ! 1) \<noteq> TaskInProgress" using p by simp
  have h4: "''t1'' \<in> set (t_dependencies (r_tasks (s_run depRun) ! 1))" using d by simp
  from spawn_only_with_completed_dependencies [OF h1 h2 h3 h4] h1 h2 p d q
  show ?thesis by blast
qed


section \<open>The judge queue\<close>

lemma judgeBegin_fields:
  "r_status (s_run (judgeBegin task s)) = RunJudging"
  "r_tasks (s_run (judgeBegin task s)) = r_tasks (s_run s)"
  "r_judgements (s_run (judgeBegin task s)) = r_judgements (s_run s)"
  "r_id (s_run (judgeBegin task s)) = r_id (s_run s)"
  "s_nextId (judgeBegin task s) = s_nextId s"
  "s_aborted (judgeBegin task s) = s_aborted s"
  by (simp_all add: judgeBegin_def)

lemma backToExecuting_fields:
  "r_tasks (s_run (backToExecuting s)) = r_tasks (s_run s)"
  "r_judgements (s_run (backToExecuting s)) = r_judgements (s_run s)"
  "r_status (s_run (backToExecuting s))
     = (if r_status (s_run s) = RunJudging then RunExecuting else r_status (s_run s))"
  by (simp_all add: backToExecuting_def)

text \<open>
  C7. When the judge throws for the task at the head of the queue, the iteration appends
  one judgement for that task whose assessment is the text Judge error: followed by the
  error message, with goalComplete false and no new task ids; the tasks are untouched, the
  run is back in status executing (not failed), processJudgeQueue does not return, and
  the loop goes on with the rest of the queue.
\<close>

theorem judge_error_recorded_and_loop_continues:
  assumes "\<not> s_aborted s" and "task = r_tasks (s_run s) ! ti"
    and "judge (s_run (judgeBegin task s)) task = (now, Inl msg)"
    and "se = judgeEnd toLowerCase now nanoid task (Inl msg) (judgeBegin task s)"
  shows "r_judgements (s_run (fst se)) = r_judgements (s_run s) @
           [\<lparr> j_id = nanoid (s_nextId s), j_taskId = t_id task,
              j_assessment = ''Judge error: '' @ msg, j_newTaskIds = [],
              j_goalComplete = False, j_timestamp = now \<rparr>]
         \<and> r_tasks (s_run (fst se)) = r_tasks (s_run s)
         \<and> r_status (s_run (fst se)) = RunExecuting
         \<and> \<not> snd se
         \<and> drainQueue toLowerCase nanoid judge (ti # rest) s = drainQueue toLowerCase nanoid judge rest (fst se)"
proof -
  have j: "r_judgements (s_run (fst se)) = r_judgements (s_run s) @
           [\<lparr> j_id = nanoid (s_nextId s), j_taskId = t_id task,
              j_assessment = ''Judge error: '' @ msg, j_newTaskIds = [],
              j_goalComplete = False, j_timestamp = now \<rparr>]"
    by (simp add: assms(4) judgeEnd_def backToExecuting_fields judgeBegin_fields)
  have t: "r_tasks (s_run (fst se)) = r_tasks (s_run s)"
    by (simp add: assms(4) judgeEnd_def backToExecuting_fields judgeBegin_fields)
  have st: "r_status (s_run (fst se)) = RunExecuting"
    by (simp add: assms(4) judgeEnd_def backToExecuting_fields judgeBegin_fields)
  have r: "\<not> snd se" by (simp add: assms(4) judgeEnd_def)
  have d: "drainQueue toLowerCase nanoid judge (ti # rest) s = drainQueue toLowerCase nanoid judge rest (fst se)"
    using assms(1) assms(3) r
    by (simp add: Let_def assms(2) [symmetric] assms(4) [symmetric])
  from j t st r d show ?thesis by blast
qed


lemma emit_last: "\<exists>pre. emit ty p b = pre @ [(ty, p)]"
proof (cases "length (b @ [(ty, p)]) > 1000")
  case True
  then have "emit ty p b = drop (length b - 999) b @ [(ty, p)]"
    by (simp add: emit_def Let_def slice_last_def Suc_diff_le)
  then show ?thesis by blast
next
  case False
  then have "emit ty p b = b @ [(ty, p)]" by (simp add: emit_def Let_def)
  then show ?thesis by blast
qed

lemma emit_mem: "(ty, p) \<in> set (emit ty p b)"
  using emit_last [of ty p b] by auto

lemma emit_keeps_last: "x \<in> set (emit ty p (pre @ [x]))"
proof (cases "length ((pre @ [x]) @ [(ty, p)]) > 1000")
  case True
  then have "emit ty p (pre @ [x]) = drop (length pre - 998) pre @ [x, (ty, p)]"
    by (simp add: emit_def Let_def slice_last_def Suc_diff_le)
  then show ?thesis by simp
next
  case False
  then have "emit ty p (pre @ [x]) = pre @ [x, (ty, p)]" by (simp add: emit_def Let_def)
  then show ?thesis by simp
qed

lemma emit_emit_mem: "(t1, p1) \<in> set (emit t2 p2 (emit t1 p1 b))"
proof -
  obtain pre where "emit t1 p1 b = pre @ [(t1, p1)]" using emit_last by blast
  then show ?thesis using emit_keeps_last [of "(t1, p1)" t2 p2 pre] by simp
qed

lemma spawnFollowUps_prefix:
  "\<exists>news. r_tasks (s_run (fst (spawnFollowUps toLowerCase now nanoid jid nts acc)))
       = r_tasks (s_run (fst acc)) @ news \<and> length news = length nts"
proof (induction nts arbitrary: acc)
  case Nil
  then show ?case by simp
next
  case (Cons nt nts)
  let ?new = "makeFollowUp toLowerCase now (nanoid (s_nextId (fst acc))) jid (r_tasks (s_run (fst acc))) nt"
  let ?acc' = "((fst acc)\<lparr>s_run := (s_run (fst acc))\<lparr>r_tasks := r_tasks (s_run (fst acc)) @ [?new]\<rparr>,
              s_bus := emit EvLog (''Spawned follow-up task: '' @ t_title ?new)
                         (emit EvTaskUpdated (t_id ?new) (s_bus (fst acc))),
              s_nextId := Suc (s_nextId (fst acc))\<rparr>,
            snd acc @ [t_id ?new])"
  from Cons.IH [of ?acc'] obtain news where
    "r_tasks (s_run (fst (spawnFollowUps toLowerCase now nanoid jid nts ?acc')))
       = r_tasks (s_run (fst ?acc')) @ news" "length news = length nts"
    by blast
  then have "r_tasks (s_run (fst (spawnFollowUps toLowerCase now nanoid jid (nt # nts) acc)))
       = r_tasks (s_run (fst acc)) @ (?new # news) \<and> length (?new # news) = length (nt # nts)"
    by (simp add: Let_def)
  then show ?case by blast
qed

lemma spawnFollowUps_run_fields:
  "r_id (s_run (fst (spawnFollowUps toLowerCase now nanoid jid nts acc))) = r_id (s_run (fst acc))
   \<and> r_status (s_run (fst (spawnFollowUps toLowerCase now nanoid jid nts acc))) = r_status (s_run (fst acc))
   \<and> r_judgements (s_run (fst (spawnFollowUps toLowerCase now nanoid jid nts acc)))
       = r_judgements (s_run (fst acc))"
  by (induction nts arbitrary: acc) (simp_all add: Let_def)

lemma recordJudgement_prefix:
  "\<exists>news. r_tasks (s_run (recordJudgement toLowerCase now nanoid task result s)) = r_tasks (s_run s) @ news"
proof (cases "length (jr_newTasks result) > 0")
  case True
  from spawnFollowUps_prefix [of toLowerCase now nanoid "nanoid (s_nextId s)" "jr_newTasks result"
      "(s\<lparr>s_nextId := Suc (s_nextId s)\<rparr>, [])"]
  obtain news where "r_tasks (s_run (fst (spawnFollowUps toLowerCase now nanoid (nanoid (s_nextId s))
      (jr_newTasks result) (s\<lparr>s_nextId := Suc (s_nextId s)\<rparr>, [])))) = r_tasks (s_run s) @ news"
    by auto
  with True show ?thesis by (simp add: recordJudgement_def Let_def)
next
  case False
  then show ?thesis by (simp add: recordJudgement_def Let_def)
qed

lemma recordJudgement_id:
  "r_id (s_run (recordJudgement toLowerCase now nanoid task result s)) = r_id (s_run s)"
  by (simp add: recordJudgement_def Let_def spawnFollowUps_run_fields)

lemma recordJudgement_last:
  "\<exists>j. r_judgements (s_run (recordJudgement toLowerCase now nanoid task result s))
        = r_judgements (s_run s) @ [j]
      \<and> j_taskId j = t_id task \<and> j_goalComplete j = jr_goalComplete result
      \<and> j_assessment j = jr_assessment result \<and> j_id j = nanoid (s_nextId s)"
  by (simp add: recordJudgement_def Let_def spawnFollowUps_run_fields)

lemma cancelPending_fields:
  "r_tasks (s_run (cancelPending s)) = map cancelIfPending (r_tasks (s_run s))"
  "r_id (s_run (cancelPending s)) = r_id (s_run s)"
  "r_judgements (s_run (cancelPending s)) = r_judgements (s_run s)"
  by (simp_all add: cancelPending_def)

lemma cancelIfPending_status:
  "t_status (cancelIfPending t) = (if t_status t = TaskPending then TaskCancelled else t_status t)"
  by (simp add: cancelIfPending_def)

lemma judgeEnd_goalComplete_tasks:
  "jr_goalComplete result \<Longrightarrow>
   r_tasks (s_run (fst (judgeEnd toLowerCase now nanoid task (Inr result) s)))
     = map cancelIfPending (r_tasks (s_run (recordJudgement toLowerCase now nanoid task result s)))"
  by (simp add: judgeEnd_def Let_def cancelPending_fields backToExecuting_fields)

lemma judgeEnd_goalComplete_judgements:
  "jr_goalComplete result \<Longrightarrow>
   r_judgements (s_run (fst (judgeEnd toLowerCase now nanoid task (Inr result) s)))
     = r_judgements (s_run (recordJudgement toLowerCase now nanoid task result s))"
  by (simp add: judgeEnd_def Let_def cancelPending_fields backToExecuting_fields)

lemma judgeEnd_goalComplete_idle:
  assumes "jr_goalComplete result"
    and "list_all (\<lambda>t. t_status t \<noteq> TaskInProgress)
           (r_tasks (s_run (fst (judgeEnd toLowerCase now nanoid task (Inr result) s))))"
  shows "r_status (s_run (fst (judgeEnd toLowerCase now nanoid task (Inr result) s))) = RunCompleted
       \<and> r_completedAt (s_run (fst (judgeEnd toLowerCase now nanoid task (Inr result) s))) = Some now
       \<and> (EvRunCompleted, r_id (s_run s)) \<in> set (s_bus (fst (judgeEnd toLowerCase now nanoid task (Inr result) s)))
       \<and> \<not> s_judging (fst (judgeEnd toLowerCase now nanoid task (Inr result) s))
       \<and> snd (judgeEnd toLowerCase now nanoid task (Inr result) s)"
proof -
  let ?s2 = "cancelPending (recordJudgement toLowerCase now nanoid task result s)"
  have "list_all (\<lambda>t. t_status t \<noteq> TaskInProgress) (r_tasks (s_run ?s2))"
    using assms by (simp add: judgeEnd_goalComplete_tasks cancelPending_fields)
  then have nr: "\<not> list_ex (\<lambda>t. t_status t = TaskInProgress) (r_tasks (s_run ?s2))"
    by (simp add: list_all_iff list_ex_iff)
  have eq: "judgeEnd toLowerCase now nanoid task (Inr result) s =
      (?s2\<lparr>s_run := (s_run ?s2)\<lparr>r_status := RunCompleted, r_completedAt := Some now\<rparr>,
           s_bus := emit EvLog ''Goal achieved! Run completed.''
                      (emit EvRunCompleted (r_id (s_run ?s2)) (s_bus ?s2)),
           s_judging := False\<rparr>, True)"
    using assms(1) nr by (simp add: judgeEnd_def Let_def)
  have id: "r_id (s_run ?s2) = r_id (s_run s)"
    by (simp add: cancelPending_fields recordJudgement_id)
  show ?thesis unfolding eq using emit_emit_mem [of EvRunCompleted "r_id (s_run s)"] 
    by (simp add: id)
qed

text \<open>
  C2. When the judge resolves with goalComplete = true, the iteration records the
  judgement and then cancels every task that is pending at that point: the tasks after
  the iteration are the tasks as they stood once the judgement was recorded (follow-up
  tasks included), each pending one cancelled, so every task pending before the iteration
  is cancelled and no pending task is left. If then no task is in_progress, the run has
  status completed and \<open>completedAt\<close> set to the current time, run:completed has been
  emitted, and processJudgeQueue has returned: \<open>judging\<close> is false and the rest of the
  queue is not processed.
\<close>

theorem goal_complete_cancels_pending_and_completes:
  assumes "\<not> s_aborted s" and "task = r_tasks (s_run s) ! ti"
    and "judge (s_run (judgeBegin task s)) task = (now, Inr result)"
    and "jr_goalComplete result"
    and "se = judgeEnd toLowerCase now nanoid task (Inr result) (judgeBegin task s)"
  shows "r_tasks (s_run (fst se))
           = map cancelIfPending
               (r_tasks (s_run (recordJudgement toLowerCase now nanoid task result (judgeBegin task s))))
         \<and> (\<forall>i<length (r_tasks (s_run s)).
               t_status (r_tasks (s_run s) ! i) = TaskPending
               \<longrightarrow> t_status (r_tasks (s_run (fst se)) ! i) = TaskCancelled)
         \<and> list_all (\<lambda>t. t_status t \<noteq> TaskPending) (r_tasks (s_run (fst se)))
         \<and> (\<exists>j. r_judgements (s_run (fst se)) = r_judgements (s_run s) @ [j]
                \<and> j_taskId j = t_id task \<and> j_goalComplete j)
         \<and> (list_all (\<lambda>t. t_status t \<noteq> TaskInProgress) (r_tasks (s_run (fst se)))
              \<longrightarrow> r_status (s_run (fst se)) = RunCompleted
                \<and> r_completedAt (s_run (fst se)) = Some now
                \<and> (EvRunCompleted, r_id (s_run s)) \<in> set (s_bus (fst se))
                \<and> \<not> s_judging (fst se)
                \<and> drainQueue toLowerCase nanoid judge (ti # rest) s = fst se)"
proof -
  let ?s1 = "judgeBegin task s"
  let ?rec = "recordJudgement toLowerCase now nanoid task result ?s1"
  have 1: "r_tasks (s_run (fst se)) = map cancelIfPending (r_tasks (s_run ?rec))"
    unfolding assms(5) by (rule judgeEnd_goalComplete_tasks [OF assms(4)])
  obtain news where news: "r_tasks (s_run ?rec) = r_tasks (s_run s) @ news"
    using recordJudgement_prefix [of toLowerCase now nanoid task result ?s1]
    by (auto simp add: judgeBegin_fields)
  have 2: "\<forall>i<length (r_tasks (s_run s)).
               t_status (r_tasks (s_run s) ! i) = TaskPending
               \<longrightarrow> t_status (r_tasks (s_run (fst se)) ! i) = TaskCancelled"
    by (simp add: 1 news nth_append cancelIfPending_status)
  have 3: "list_all (\<lambda>t. t_status t \<noteq> TaskPending) (r_tasks (s_run (fst se)))"
    by (simp add: 1 list_all_iff cancelIfPending_status)
  have 4: "\<exists>j. r_judgements (s_run (fst se)) = r_judgements (s_run s) @ [j]
                \<and> j_taskId j = t_id task \<and> j_goalComplete j"
    using recordJudgement_last [of toLowerCase now nanoid task result ?s1] assms(4)
    by (auto simp add: assms(5) judgeEnd_goalComplete_judgements judgeBegin_fields)
  have 5: "list_all (\<lambda>t. t_status t \<noteq> TaskInProgress) (r_tasks (s_run (fst se)))
              \<longrightarrow> r_status (s_run (fst se)) = RunCompleted
                \<and> r_completedAt (s_run (fst se)) = Some now
                \<and> (EvRunCompleted, r_id (s_run s)) \<in> set (s_bus (fst se))
                \<and> \<not> s_judging (fst se)
                \<and> drainQueue toLowerCase nanoid judge (ti # rest) s = fst se"
  proof
    assume idle: "list_all (\<lambda>t. t_status t \<noteq> TaskInProgress) (r_tasks (s_run (fst se)))"
    note c = judgeEnd_goalComplete_idle [OF assms(4) idle [unfolded assms(5)]]
    have "snd se" using c by (simp add: assms(5))
    then have "drainQueue toLowerCase nanoid judge (ti # rest) s = fst se"
      using assms(1) assms(3)
      by (simp add: Let_def assms(2) [symmetric] assms(5) [symmetric])
    with c show "r_status (s_run (fst se)) = RunCompleted
                \<and> r_completedAt (s_run (fst se)) = Some now
                \<and> (EvRunCompleted, r_id (s_run s)) \<in> set (s_bus (fst se))
                \<and> \<not> s_judging (fst se)
                \<and> drainQueue toLowerCase nanoid judge (ti # rest) s = fst se"
      by (simp add: assms(5) judgeBegin_fields)
  qed
  from 1 2 3 4 5 show ?thesis by blast
qed


theorem judge_error_recorded_and_loop_continues_witness:
  "\<not> s_aborted judgeRun
   \<and> failingJudge (s_run (judgeBegin (r_tasks (s_run judgeRun) ! 0) judgeRun))
        (r_tasks (s_run judgeRun) ! 0) = (70, Inl ''boom'')
   \<and> map j_assessment (r_judgements (s_run (drainQueue asciiLowerCase idOf failingJudge [0] judgeRun)))
        = [''Judge error: boom'']
   \<and> map j_taskId (r_judgements (s_run (drainQueue asciiLowerCase idOf failingJudge [0] judgeRun))) = [''t1'']
   \<and> map j_goalComplete (r_judgements (s_run (drainQueue asciiLowerCase idOf failingJudge [0] judgeRun)))
        = [False]
   \<and> map j_newTaskIds (r_judgements (s_run (drainQueue asciiLowerCase idOf failingJudge [0] judgeRun))) = [[]]
   \<and> r_status (s_run (drainQueue asciiLowerCase idOf failingJudge [0] judgeRun)) = RunExecuting
   \<and> map t_status (r_tasks (s_run (drainQueue asciiLowerCase idOf failingJudge [0] judgeRun)))
        = [TaskCompleted, TaskPending]"
proof -
  let ?task = "r_tasks (s_run judgeRun) ! 0"
  have h1: "\<not> s_aborted judgeRun" by (simp add: judgeRun_def mkSched_def)
  have h3: "failingJudge (s_run (judgeBegin ?task judgeRun)) ?task = (70, Inl ''boom'')"
    by (simp add: failingJudge_def)
  note t = judge_error_recorded_and_loop_continues [where s = judgeRun and ti = 0
      and toLowerCase = asciiLowerCase
      and judge = failingJudge and now = 70 and msg = "''boom''" and nanoid = idOf
      and rest = "[]", OF h1 refl h3 refl]
  have task: "t_id ?task = ''t1''" by (simp add: judgeRun_def mkSched_def mkRun_def mkTask_def)
  have js: "r_judgements (s_run judgeRun) = []"
    and ts: "map t_status (r_tasks (s_run judgeRun)) = [TaskCompleted, TaskPending]"
    by (simp_all add: judgeRun_def mkSched_def mkRun_def mkTask_def)
  let ?se = "judgeEnd asciiLowerCase 70 idOf ?task (Inl ''boom'') (judgeBegin ?task judgeRun)"
  have dq: "drainQueue asciiLowerCase idOf failingJudge [0] judgeRun = (fst ?se)\<lparr>s_judging := False\<rparr>"
    using t by (simp only: drainQueue.simps(1))
  show ?thesis unfolding dq using t h1 h3 task js ts by simp
qed

theorem goal_complete_cancels_pending_and_completes_witness:
  "\<not> s_aborted judgeRun
   \<and> doneJudge (s_run (judgeBegin (r_tasks (s_run judgeRun) ! 0) judgeRun))
        (r_tasks (s_run judgeRun) ! 0)
       = (70, Inr \<lparr> jr_assessment = ''done'', jr_goalComplete = True, jr_newTasks = [] \<rparr>)
   \<and> map t_status (r_tasks (s_run judgeRun)) = [TaskCompleted, TaskPending]
   \<and> map t_status (r_tasks (s_run (drainQueue asciiLowerCase idOf doneJudge [0, 1] judgeRun)))
        = [TaskCompleted, TaskCancelled]
   \<and> r_status (s_run (drainQueue asciiLowerCase idOf doneJudge [0, 1] judgeRun)) = RunCompleted
   \<and> r_completedAt (s_run (drainQueue asciiLowerCase idOf doneJudge [0, 1] judgeRun)) = Some 70
   \<and> (EvRunCompleted, ''r1'') \<in> set (s_bus (drainQueue asciiLowerCase idOf doneJudge [0, 1] judgeRun))
   \<and> \<not> s_judging (drainQueue asciiLowerCase idOf doneJudge [0, 1] judgeRun)
   \<and> length (r_judgements (s_run (drainQueue asciiLowerCase idOf doneJudge [0, 1] judgeRun))) = 1"
proof -
  let ?task = "r_tasks (s_run judgeRun) ! 0"
  let ?result = "\<lparr> jr_assessment = ''done'', jr_goalComplete = True, jr_newTasks = [] \<rparr>"
  let ?se = "judgeEnd asciiLowerCase 70 idOf ?task (Inr ?result) (judgeBegin ?task judgeRun)"
  have h1: "\<not> s_aborted judgeRun" by (simp add: judgeRun_def mkSched_def)
  have h3: "doneJudge (s_run (judgeBegin ?task judgeRun)) ?task = (70, Inr ?result)"
    by (simp add: doneJudge_def)
  have h4: "jr_goalComplete ?result" by simp
  note t = goal_complete_cancels_pending_and_completes [where s = judgeRun and ti = 0
      and toLowerCase = asciiLowerCase
      and judge = doneJudge and now = 70 and result = ?result and nanoid = idOf
      and rest = "[1]", OF h1 refl h3 h4 refl]
  have ts: "map t_status (r_tasks (s_run judgeRun)) = [TaskCompleted, TaskPending]"
    and js: "r_judgements (s_run judgeRun) = []" and rid: "r_id (s_run judgeRun) = ''r1''"
    by (simp_all add: judgeRun_def mkSched_def mkRun_def mkTask_def)
  have rec: "r_tasks (s_run (recordJudgement asciiLowerCase 70 idOf ?task ?result (judgeBegin ?task judgeRun)))
      = r_tasks (s_run judgeRun)"
    by (simp add: recordJudgement_def Let_def judgeBegin_def)
  have eq: "r_tasks (s_run (fst ?se)) = map cancelIfPending (r_tasks (s_run judgeRun))"
    using t [THEN conjunct1] by (simp only: rec)
  have "map t_status (r_tasks (s_run (fst ?se)))
      = map (\<lambda>st. if st = TaskPending then TaskCancelled else st)
          (map t_status (r_tasks (s_run judgeRun)))"
    unfolding eq by (simp add: cancelIfPending_status)
  then have after: "map t_status (r_tasks (s_run (fst ?se))) = [TaskCompleted, TaskCancelled]"
    by (simp add: ts)
  have idle: "list_all (\<lambda>t. t_status t \<noteq> TaskInProgress) (r_tasks (s_run (fst ?se)))"
  proof -
    have "list_all (\<lambda>st. st \<noteq> TaskInProgress) (map t_status (r_tasks (s_run (fst ?se))))"
      unfolding after by simp
    then show ?thesis by (simp add: list_all_iff)
  qed
  from t idle have c: "r_status (s_run (fst ?se)) = RunCompleted
      \<and> r_completedAt (s_run (fst ?se)) = Some 70
      \<and> (EvRunCompleted, r_id (s_run judgeRun)) \<in> set (s_bus (fst ?se))
      \<and> \<not> s_judging (fst ?se)
      \<and> drainQueue asciiLowerCase idOf doneJudge [0, 1] judgeRun = fst ?se"
    by blast
  from t obtain j where "r_judgements (s_run (fst ?se)) = r_judgements (s_run judgeRun) @ [j]"
    by blast
  then have len: "length (r_judgements (s_run (fst ?se))) = 1" by (simp add: js)
  have dq: "drainQueue asciiLowerCase idOf doneJudge [0, 1] judgeRun = fst ?se" using c by blast
  show ?thesis unfolding dq using c after len h1 h3 ts rid by simp
qed

section \<open>Follow-up tasks of a judgement\<close>

lemma resolveDependencies_concat:
  "resolveDependencies toLowerCase ts depTitles =
     concat (map (\<lambda>d. case find (\<lambda>t. toLowerCase (t_title t) = toLowerCase d) ts of
                         None \<Rightarrow> []
                       | Some t \<Rightarrow> if t_id t = [] then [] else [t_id t]) depTitles)"
  unfolding resolveDependencies_def findByTitle_def
  by (induction depTitles) (auto split: option.splits)

lemma spawnFollowUps_nth:
  "k < length nts \<Longrightarrow>
   r_tasks (s_run (fst (spawnFollowUps toLowerCase now nanoid jid nts acc)))
       ! (length (r_tasks (s_run (fst acc))) + k)
     = makeFollowUp toLowerCase now (nanoid (s_nextId (fst acc) + k)) jid
         (take (length (r_tasks (s_run (fst acc))) + k)
            (r_tasks (s_run (fst (spawnFollowUps toLowerCase now nanoid jid nts acc)))))
         (nts ! k)"
proof (induction nts arbitrary: acc k)
  case Nil
  then show ?case by simp
next
  case (Cons nt nts)
  let ?ts = "r_tasks (s_run (fst acc))"
  let ?new = "makeFollowUp toLowerCase now (nanoid (s_nextId (fst acc))) jid ?ts nt"
  let ?acc' = "((fst acc)\<lparr>s_run := (s_run (fst acc))\<lparr>r_tasks := ?ts @ [?new]\<rparr>,
              s_bus := emit EvLog (''Spawned follow-up task: '' @ t_title ?new)
                         (emit EvTaskUpdated (t_id ?new) (s_bus (fst acc))),
              s_nextId := Suc (s_nextId (fst acc))\<rparr>,
            snd acc @ [t_id ?new])"
  let ?res = "r_tasks (s_run (fst (spawnFollowUps toLowerCase now nanoid jid (nt # nts) acc)))"
  have step: "?res = r_tasks (s_run (fst (spawnFollowUps toLowerCase now nanoid jid nts ?acc')))"
    by (simp add: Let_def)
  obtain news where news: "?res = (?ts @ [?new]) @ news"
    using spawnFollowUps_prefix [of toLowerCase now nanoid jid nts ?acc'] step by auto
  show ?case
  proof (cases k)
    case 0
    have a: "?res ! length ?ts = ?new" unfolding news by simp
    have b: "take (length ?ts) ?res = ?ts" unfolding news by simp
    show ?thesis unfolding 0 by (simp only: add_0_right a b nth_Cons_0)
  next
    case (Suc k')
    then have k': "k' < length nts" using Cons.prems by simp
    from Cons.IH [OF k', of ?acc'] show ?thesis
      unfolding step [symmetric] by (simp add: Suc)
  qed
qed

lemma resolveDependencies_Nil: "resolveDependencies toLowerCase ts [] = []"
  by (simp add: resolveDependencies_def)

lemma letters_distinct:
  "distinct (map fst (zip capitalLetters smallLetters))"
  "distinct (map snd (zip capitalLetters smallLetters))"
  by (simp_all add: capitalLetters_def smallLetters_def)

lemma letters_disjoint:
  "set (map fst (zip capitalLetters smallLetters))
     \<inter> set (map snd (zip capitalLetters smallLetters)) = {}"
  by (simp add: capitalLetters_def smallLetters_def)

lemma asciiLowerChar_eq_iff: "(asciiLowerChar a = asciiLowerChar b) = sameLetter a b"
proof -
  let ?Z = "zip capitalLetters smallLetters"
  have some: "\<And>c l. (map_of ?Z c = Some l) = ((c, l) \<in> set ?Z)"
    using letters_distinct(1) by (simp add: map_of_eq_Some_iff)
  have inj: "\<And>c c' l. (c, l) \<in> set ?Z \<Longrightarrow> (c', l) \<in> set ?Z \<Longrightarrow> c = c'"
    using letters_distinct(2) by (metis distinct_map inj_on_def snd_conv fst_conv)
  have disj: "\<And>c l l'. (c, l) \<in> set ?Z \<Longrightarrow> (l, l') \<in> set ?Z \<Longrightarrow> False"
    using letters_disjoint by (force simp add: disjoint_iff)
  show ?thesis
  proof (cases "map_of ?Z a")
    case None
    note na = None
    then have a: "\<And>l. (a, l) \<notin> set ?Z" using some by (metis option.distinct(1))
    show ?thesis
    proof (cases "map_of ?Z b")
      case None
      then have b: "\<And>l. (b, l) \<notin> set ?Z" using some by (metis option.distinct(1))
      show ?thesis using na None a b by (simp add: asciiLowerChar_def sameLetter_def)
    next
      case (Some lb)
      then have b: "(b, lb) \<in> set ?Z" using some by simp
      have "(a = lb) = ((b, a) \<in> set ?Z)"
        using b some Some by (metis option.inject)
      moreover have "a \<noteq> b" using a b by blast
      ultimately show ?thesis using na Some a by (simp add: asciiLowerChar_def sameLetter_def)
    qed
  next
    case (Some la)
    note sa = Some
    then have a: "(a, la) \<in> set ?Z" using some by simp
    show ?thesis
    proof (cases "map_of ?Z b")
      case None
      then have b: "\<And>l. (b, l) \<notin> set ?Z" using some by (metis option.distinct(1))
      have "(la = b) = ((a, b) \<in> set ?Z)"
        using a some sa by (metis option.inject)
      moreover have "a \<noteq> b" using a b by blast
      ultimately show ?thesis using sa None b by (simp add: asciiLowerChar_def sameLetter_def)
    next
      case (Some lb)
      then have b: "(b, lb) \<in> set ?Z" using some by simp
      have 1: "(la = lb) = (a = b)"
        using a b inj some sa Some by (metis option.inject)
      have 2: "(a, b) \<notin> set ?Z" using b disj by blast
      have 3: "(b, a) \<notin> set ?Z" using a disj by blast
      show ?thesis using sa Some 1 2 3 by (simp add: asciiLowerChar_def sameLetter_def)
    qed
  qed
qed

lemma asciiLowerCase_eq_iff: "(asciiLowerCase xs = asciiLowerCase ys) = equalIgnoringCase xs ys"
proof -
  have "(map asciiLowerChar xs = map asciiLowerChar ys)
      = list_all2 (\<lambda>a b. asciiLowerChar a = asciiLowerChar b) xs ys"
    by (induction xs ys rule: list_induct2') auto
  then show ?thesis
    by (simp add: asciiLowerCase_def equalIgnoringCase_def asciiLowerChar_eq_iff)
qed

lemma findByTitle_ascii:
  assumes "\<forall>x. isAscii x \<longrightarrow> toLowerCase x = asciiLowerCase x"
    and "list_all (\<lambda>t. isAscii (t_title t)) ts" and "isAscii d"
  shows "findByTitle toLowerCase ts d = find (\<lambda>t. equalIgnoringCase (t_title t) d) ts"
  unfolding findByTitle_def
proof (rule find_cong [OF refl])
  fix t assume "t \<in> set ts"
  then have "isAscii (t_title t)" using assms(2) by (simp add: list_all_iff)
  then show "(toLowerCase (t_title t) = toLowerCase d) = equalIgnoringCase (t_title t) d"
    using assms(1,3) by (simp add: asciiLowerCase_eq_iff)
qed

text \<open>
  C10. The loop over the new tasks of one judgement appends one task per entry to
  \<open>run.tasks\<close> and leaves the earlier tasks in place. The dependencies of the k-th new
  task are its dependency titles resolved against \<open>run.tasks\<close> as it stands when that
  task is built, that is the old tasks followed by the first k new tasks of the same
  batch. Resolving maps each title to the id of the first task whose title has the same
  image under toLowerCase as the dependency title, and a title that no task matches
  contributes nothing (as does a match whose id is the empty string). This holds for
  whatever function toLowerCase is. Where toLowerCase folds ASCII strings as the
  language defines, and the titles are ASCII strings, the task found for a dependency
  title is the first one whose title is equal to it up to the case of the letters.
\<close>

theorem followUp_dependencies_resolved_at_creation:
  assumes "k < length nts"
    and "tasks' = r_tasks (s_run (fst (spawnFollowUps toLowerCase now nanoid jid nts (s, ids))))"
    and "n = length (r_tasks (s_run s))"
  shows "take n tasks' = r_tasks (s_run s) \<and> length tasks' = n + length nts
     \<and> t_dependencies (tasks' ! (n + k))
         = (case nt_dependencies (nts ! k) of
              None \<Rightarrow> []
            | Some depTitles \<Rightarrow> resolveDependencies toLowerCase (take (n + k) tasks') depTitles)
     \<and> resolveDependencies toLowerCase (take (n + k) tasks') depTitles
         = concat (map (\<lambda>d. case find (\<lambda>t. toLowerCase (t_title t) = toLowerCase d)
                                   (take (n + k) tasks') of
                               None \<Rightarrow> []
                             | Some t \<Rightarrow> if t_id t = [] then [] else [t_id t]) depTitles)
     \<and> ((\<forall>x. isAscii x \<longrightarrow> toLowerCase x = asciiLowerCase x)
          \<and> list_all (\<lambda>t. isAscii (t_title t)) (take (n + k) tasks') \<and> isAscii d
          \<longrightarrow> findByTitle toLowerCase (take (n + k) tasks') d
                = find (\<lambda>t. equalIgnoringCase (t_title t) d) (take (n + k) tasks'))"
proof -
  obtain news where news: "tasks' = r_tasks (s_run s) @ news" "length news = length nts"
    using spawnFollowUps_prefix [of toLowerCase now nanoid jid nts "(s, ids)"] assms(2) by auto
  have 1: "take n tasks' = r_tasks (s_run s)" by (simp add: news assms(3))
  have 2: "length tasks' = n + length nts" by (simp add: news assms(3))
  have "tasks' ! (n + k) = makeFollowUp toLowerCase now (nanoid (s_nextId s + k)) jid
         (take (n + k) tasks') (nts ! k)"
    using spawnFollowUps_nth [OF assms(1), of toLowerCase now nanoid jid "(s, ids)"]
    by (simp add: assms(2,3))
  then have 3: "t_dependencies (tasks' ! (n + k))
         = (case nt_dependencies (nts ! k) of
              None \<Rightarrow> []
            | Some depTitles \<Rightarrow> resolveDependencies toLowerCase (take (n + k) tasks') depTitles)"
    by (simp add: makeFollowUp_def resolveDependencies_Nil split: option.split)
  have 4: "(\<forall>x. isAscii x \<longrightarrow> toLowerCase x = asciiLowerCase x)
          \<and> list_all (\<lambda>t. isAscii (t_title t)) (take (n + k) tasks') \<and> isAscii d
          \<longrightarrow> findByTitle toLowerCase (take (n + k) tasks') d
                = find (\<lambda>t. equalIgnoringCase (t_title t) d) (take (n + k) tasks')"
    using findByTitle_ascii by blast
  from 1 2 3 4 resolveDependencies_concat show ?thesis by blast
qed

lemma followUps_of_judgeRun:
  "map (\<lambda>t. (t_id t, t_title t, t_status t, t_spawnedBy t))
     (r_tasks (s_run (fst (spawnFollowUps asciiLowerCase 70 idOf ''j1'' followUpSpecs
        (judgeRun, [])))))
   = [(''t1'', ''T1'', TaskCompleted, None), (''t2'', ''T2'', TaskPending, None),
      (''x'', ''Build'', TaskPending, Some ''j1''), (''xx'', ''Test'', TaskPending, Some ''j1'')]"
  by code_simp

lemma resolve_in_judgeRun:
  "resolveDependencies asciiLowerCase
     (take 3 (r_tasks (s_run (fst (spawnFollowUps asciiLowerCase 70 idOf ''j1'' followUpSpecs
        (judgeRun, []))))))
     [''BUILD'', ''t1'', ''Guild'', ''nosuch''] = [''x'', ''t1'']"
  by code_simp

lemma titles_in_judgeRun:
  "list_all (\<lambda>t. isAscii (t_title t))
     (take 3 (r_tasks (s_run (fst (spawnFollowUps asciiLowerCase 70 idOf ''j1'' followUpSpecs
        (judgeRun, []))))))
   \<and> isAscii ''BUILD'' \<and> isAscii ''Guild''"
  by code_simp

lemma matches_in_judgeRun:
  "map (\<lambda>d. map_option t_id (find (\<lambda>t. equalIgnoringCase (t_title t) d)
     (take 3 (r_tasks (s_run (fst (spawnFollowUps asciiLowerCase 70 idOf ''j1'' followUpSpecs
        (judgeRun, []))))))))
     [''BUILD'', ''Guild''] = [Some ''x'', None]"
  by code_simp

theorem followUp_dependencies_resolved_at_creation_witness:
  "(1::nat) < length followUpSpecs
   \<and> length (r_tasks (s_run judgeRun)) = 2
   \<and> nt_dependencies (followUpSpecs ! 1) = Some [''BUILD'', ''t1'', ''Guild'', ''nosuch'']
   \<and> map t_title (r_tasks (s_run (fst (spawnFollowUps asciiLowerCase 70 idOf ''j1''
        followUpSpecs (judgeRun, [])))))
       = [''T1'', ''T2'', ''Build'', ''Test'']
   \<and> map t_id (r_tasks (s_run (fst (spawnFollowUps asciiLowerCase 70 idOf ''j1''
        followUpSpecs (judgeRun, [])))))
       = [''t1'', ''t2'', ''x'', ''xx'']
   \<and> t_dependencies
        (r_tasks (s_run (fst (spawnFollowUps asciiLowerCase 70 idOf ''j1'' followUpSpecs
           (judgeRun, [])))) ! 3)
       = [''x'', ''t1'']
   \<and> map_option t_id (findByTitle asciiLowerCase
        (take 3 (r_tasks (s_run (fst (spawnFollowUps asciiLowerCase 70 idOf ''j1''
           followUpSpecs (judgeRun, [])))))) ''BUILD'') = Some ''x''
   \<and> map_option t_id (findByTitle asciiLowerCase
        (take 3 (r_tasks (s_run (fst (spawnFollowUps asciiLowerCase 70 idOf ''j1''
           followUpSpecs (judgeRun, [])))))) ''Guild'') = None"
proof -
  let ?tasks = "r_tasks (s_run (fst (spawnFollowUps asciiLowerCase 70 idOf ''j1'' followUpSpecs
      (judgeRun, []))))"
  have h1: "(1::nat) < length followUpSpecs" by (simp add: followUpSpecs_def)
  have h3: "2 = length (r_tasks (s_run judgeRun))"
    by (simp add: judgeRun_def mkSched_def mkRun_def)
  have d: "nt_dependencies (followUpSpecs ! 1) = Some [''BUILD'', ''t1'', ''Guild'', ''nosuch'']"
    by (simp add: followUpSpecs_def)
  have three: "(2::nat) + 1 = 3" by simp
  note t = followUp_dependencies_resolved_at_creation [where toLowerCase = asciiLowerCase
      and now = 70 and nanoid = idOf and jid = "''j1''" and ids = "[]", OF h1 refl h3]
  note t3 = t [THEN conjunct2, THEN conjunct2, THEN conjunct1]
  note t5 = t [THEN conjunct2, THEN conjunct2, THEN conjunct2, THEN conjunct2, rule_format,
      unfolded three]
  have "t_dependencies (?tasks ! (2 + 1))
      = resolveDependencies asciiLowerCase (take (2 + 1) ?tasks)
          [''BUILD'', ''t1'', ''Guild'', ''nosuch'']"
    using t3 unfolding d by (simp only: option.case)
  then have deps: "t_dependencies (?tasks ! 3) = [''x'', ''t1'']"
    using resolve_in_judgeRun three by (simp only:)
  have asc: "\<forall>x. isAscii x \<longrightarrow> asciiLowerCase x = asciiLowerCase x" by simp
  have f1: "findByTitle asciiLowerCase (take 3 ?tasks) ''BUILD''
      = find (\<lambda>t. equalIgnoringCase (t_title t) ''BUILD'') (take 3 ?tasks)"
    by (rule t5) (use asc titles_in_judgeRun in blast)
  have f2: "findByTitle asciiLowerCase (take 3 ?tasks) ''Guild''
      = find (\<lambda>t. equalIgnoringCase (t_title t) ''Guild'') (take 3 ?tasks)"
    by (rule t5) (use asc titles_in_judgeRun in blast)
  have m1: "map_option t_id (findByTitle asciiLowerCase (take 3 ?tasks) ''BUILD'') = Some ''x''"
    and m2: "map_option t_id (findByTitle asciiLowerCase (take 3 ?tasks) ''Guild'') = None"
    using matches_in_judgeRun unfolding f1 f2 by simp_all
  have titles: "map t_title ?tasks = [''T1'', ''T2'', ''Build'', ''Test'']"
    using arg_cong [OF followUps_of_judgeRun, of "map (\<lambda>p. fst (snd p))"] by (simp add: comp_def)
  have tids: "map t_id ?tasks = [''t1'', ''t2'', ''x'', ''xx'']"
    using arg_cong [OF followUps_of_judgeRun, of "map fst"] by (simp add: comp_def)
  from h1 h3 d titles tids deps m1 m2 show ?thesis by simp
qed

section \<open>Reconciliation on load\<close>

lemma pausedIfActive_inactive: "pausedIfActive st \<notin> {RunPlanning, RunExecuting, RunJudging}"
  by (simp add: pausedIfActive_def)

lemma reconcileWorker_status:
  "w_status (reconcileWorker now rw)
     = (if rw_status rw = WorkerRunning then WorkerFailed else rw_status rw)"
  "w_completedAt (reconcileWorker now rw)
     = (if rw_status rw = WorkerRunning then Some now else rw_completedAt rw)"
  by (simp_all add: reconcileWorker_def)

lemma rollbackTask_status:
  "t_status (rollbackTask t) = (if t_status t = TaskInProgress then TaskPending else t_status t)"
  "t_startedAt (rollbackTask t) = (if t_status t = TaskInProgress then None else t_startedAt t)"
  by (simp_all add: rollbackTask_def)

lemma loadRun_Some:
  "fst (loadRun now nanoid n raw) = Some r \<Longrightarrow>
   \<exists>pre ws. fst (shapeRun now nanoid n raw) = (pre, Some ws) \<and> reconciledFrom now pre ws r"
proof -
  assume a: "fst (loadRun now nanoid n raw) = Some r"
  obtain pre wso where sh: "fst (shapeRun now nanoid n raw) = (pre, wso)"
    by (cases "fst (shapeRun now nanoid n raw)") blast
  from a sh obtain ws where "wso = Some ws" "reconciledFrom now pre ws r"
    by (auto simp add: loadRun_def reconcile_def reconciledFrom_def split: option.splits)
  with sh show ?thesis by blast
qed

lemma loadFiles_from:
  assumes "\<forall>k r. fst acc k = Some r \<longrightarrow> P r"
    and "\<forall>now raw n r. (now, Some raw) \<in> set files \<longrightarrow> fst (loadRun now nanoid n raw) = Some r
           \<longrightarrow> P r"
  shows "\<forall>k r. fst (loadFiles nanoid files acc) k = Some r \<longrightarrow> P r"
  using assms
proof (induction nanoid files acc rule: loadFiles.induct)
  case (1 nanoid acc)
  then show ?case by simp
next
  case (2 nanoid now files acc)
  then show ?case by simp
next
  case (3 nanoid now raw files acc)
  show ?case
  proof (cases "fst (loadRun now nanoid (snd acc) raw)")
    case None
    have "\<forall>k r. fst (loadFiles nanoid files (fst acc, snd (loadRun now nanoid (snd acc) raw))) k
        = Some r \<longrightarrow> P r"
      by (rule "3.IH"(1) [OF None]) (use "3.prems" in auto)
    with None show ?thesis by simp
  next
    case (Some run)
    have p: "P run" using "3.prems"(2) Some by auto
    have "\<forall>k r. fst (loadFiles nanoid files
        ((fst acc)(r_id run \<mapsto> run), snd (loadRun now nanoid (snd acc) raw))) k = Some r \<longrightarrow> P r"
      by (rule "3.IH"(2) [OF Some]) (use "3.prems" p in auto)
    with Some show ?thesis by simp
  qed
qed

text \<open>
  C3. After loadState on a cold start, every run in the map has a status other than
  planning, executing and judging, no worker with status running and no task with status
  in_progress. Each such run comes from one of the files: its status is paused where the
  file's was one of the three and the file's status otherwise; a worker that was running
  is failed with \<open>completedAt\<close> set to the time of loading, and every other worker keeps
  its status and \<open>completedAt\<close>; a task that was in_progress is pending with \<open>startedAt\<close>
  cleared, and every other task keeps its status and \<open>startedAt\<close>.
\<close>

theorem loadState_reconciles:
  assumes "loadState nanoid files runId = Some r"
  shows "r_status r \<notin> {RunPlanning, RunExecuting, RunJudging}
     \<and> list_all (\<lambda>w. w_status w \<noteq> WorkerRunning) (r_workers r)
     \<and> list_all (\<lambda>t. t_status t \<noteq> TaskInProgress) (r_tasks r)
     \<and> (\<exists>now raw n pre ws.
          (now, Some raw) \<in> set files
          \<and> fst (shapeRun now nanoid n raw) = (pre, Some ws)
          \<and> r_status r = (if r_status pre \<in> {RunPlanning, RunExecuting, RunJudging}
                           then RunPaused else r_status pre)
          \<and> map (\<lambda>w. (w_status w, w_completedAt w)) (r_workers r)
              = map (\<lambda>w. if rw_status w = WorkerRunning then (WorkerFailed, Some now)
                          else (rw_status w, rw_completedAt w)) ws
          \<and> map (\<lambda>t. (t_status t, t_startedAt t)) (r_tasks r)
              = map (\<lambda>t. if t_status t = TaskInProgress then (TaskPending, None)
                          else (t_status t, t_startedAt t)) (r_tasks pre))"
proof -
  let ?P = "\<lambda>r. \<exists>now raw n pre ws. (now, Some raw) \<in> set files
      \<and> fst (shapeRun now nanoid n raw) = (pre, Some ws) \<and> reconciledFrom now pre ws r"
  have "\<forall>k r. fst (loadFiles nanoid files (Map.empty, 0)) k = Some r \<longrightarrow> ?P r"
    by (rule loadFiles_from) (use loadRun_Some in \<open>simp, blast\<close>)
  with assms obtain now raw n pre ws where f: "(now, Some raw) \<in> set files"
    "fst (shapeRun now nanoid n raw) = (pre, Some ws)" and rec: "reconciledFrom now pre ws r"
    unfolding loadState_def by blast
  have st: "r_status r = pausedIfActive (r_status pre)"
    and ws: "r_workers r = map (reconcileWorker now) ws"
    and ts: "r_tasks r = map rollbackTask (r_tasks pre)"
    using rec by (simp_all add: reconciledFrom_def)
  have 1: "r_status r \<notin> {RunPlanning, RunExecuting, RunJudging}"
    unfolding st by (rule pausedIfActive_inactive)
  have 2: "list_all (\<lambda>w. w_status w \<noteq> WorkerRunning) (r_workers r)"
    by (simp add: ws list_all_iff reconcileWorker_status)
  have 3: "list_all (\<lambda>t. t_status t \<noteq> TaskInProgress) (r_tasks r)"
    by (simp add: ts list_all_iff rollbackTask_status)
  have 4: "r_status r = (if r_status pre \<in> {RunPlanning, RunExecuting, RunJudging}
                           then RunPaused else r_status pre)"
    by (simp add: st pausedIfActive_def)
  have 5: "map (\<lambda>w. (w_status w, w_completedAt w)) (r_workers r)
              = map (\<lambda>w. if rw_status w = WorkerRunning then (WorkerFailed, Some now)
                          else (rw_status w, rw_completedAt w)) ws"
    by (simp add: ws reconcileWorker_status)
  have 6: "map (\<lambda>t. (t_status t, t_startedAt t)) (r_tasks r)
              = map (\<lambda>t. if t_status t = TaskInProgress then (TaskPending, None)
                          else (t_status t, t_startedAt t)) (r_tasks pre)"
    by (simp add: ts rollbackTask_status)
  from 1 2 3 f 4 5 6 show ?thesis by blast
qed


lemma loadState_savedFiles:
  "map_option (\<lambda>r. (r_status r, map (\<lambda>w. (w_status w, w_completedAt w)) (r_workers r),
                     map (\<lambda>t. (t_status t, t_startedAt t)) (r_tasks r)))
     (loadState idOf savedFiles ''r1'')
   = Some (RunPaused, [(WorkerFailed, Some 500)], [(TaskPending, None), (TaskCompleted, None)])"
  by code_simp

theorem loadState_reconciles_witness:
  "loadState idOf savedFiles ''r1'' \<noteq> None
   \<and> r_status (the (loadState idOf savedFiles ''r1'')) = RunPaused
   \<and> map (\<lambda>w. (w_status w, w_completedAt w)) (r_workers (the (loadState idOf savedFiles ''r1'')))
       = [(WorkerFailed, Some 500)]
   \<and> map (\<lambda>t. (t_status t, t_startedAt t)) (r_tasks (the (loadState idOf savedFiles ''r1'')))
       = [(TaskPending, None), (TaskCompleted, None)]
   \<and> r_status (the (loadState idOf savedFiles ''r1'')) \<notin> {RunPlanning, RunExecuting, RunJudging}
   \<and> list_all (\<lambda>w. w_status w \<noteq> WorkerRunning) (r_workers (the (loadState idOf savedFiles ''r1'')))
   \<and> list_all (\<lambda>t. t_status t \<noteq> TaskInProgress) (r_tasks (the (loadState idOf savedFiles ''r1'')))"
proof -
  let ?l = "loadState idOf savedFiles ''r1''"
  from loadState_savedFiles obtain r where r: "?l = Some r"
    and v: "r_status r = RunPaused"
      "map (\<lambda>w. (w_status w, w_completedAt w)) (r_workers r) = [(WorkerFailed, Some 500)]"
      "map (\<lambda>t. (t_status t, t_startedAt t)) (r_tasks r) = [(TaskPending, None), (TaskCompleted, None)]"
    by (cases ?l) auto
  note t = loadState_reconciles [OF r]
  from t have "r_status r \<notin> {RunPlanning, RunExecuting, RunJudging}"
    and "list_all (\<lambda>w. w_status w \<noteq> WorkerRunning) (r_workers r)"
    and "list_all (\<lambda>t. t_status t \<noteq> TaskInProgress) (r_tasks r)"
    by blast+
  with r v show ?thesis by simp
qed

end
